theory Spec2Isabelle
  imports Main "HOL-Library.Char_ord" "HOL-Library.List_Lexorder" "HOL-Library.Word"
begin

section \<open>Key encoding (db.go, lines 37-49 and 225-236)\<close>

text \<open>
  The prefixes used in the store and the bounds for iterators.  The Go constant
  \<^verbatim>\<open>last\<close> is called \<open>last_key\<close> here, since \<open>last\<close> is a list function of HOL.
  Keys and values are byte strings; \<open>string\<close> is a list of 8-bit characters, ordered
  bytewise and lexicographically, as the default comparer of the store orders them.
\<close>

definition found :: string where "found = ''found''"
definition missing :: string where "missing = ''missing''"
definition parent :: string where "parent = ''parent''"
definition last_key :: string where "last_key = ''last''"
definition camliType :: string where "camliType = ''type''"
definition mimeType :: string where "mimeType = ''mime''"

definition start :: string where "start = [CHR 0x00]"
definition limit :: string where "limit = [CHR 0xFF]"

text \<open>\<^verbatim>\<open>pack\<close>: the buffer starts as the prefix; the loop appends a bar and the field.\<close>

fun pack :: "string \<Rightarrow> string list \<Rightarrow> string" where
  "pack b [] = b"
| "pack b (f # fs) = pack (b @ CHR ''|'' # f) fs"

text \<open>
  \<^verbatim>\<open>strings.Split(s, "|")\<close>: the pieces between the bars; a string with n bars has
  n + 1 pieces, and the empty string has the one piece \<open>''''\<close>.
\<close>

fun Split :: "string \<Rightarrow> string list" where
  "Split [] = [[]]"
| "Split (c # cs) =
     (if c = CHR ''|'' then [] # Split cs
      else (case Split cs of [] \<Rightarrow> [[c]] | w # ws \<Rightarrow> (c # w) # ws))"

definition unpack :: "string \<Rightarrow> string list" where
  "unpack bts = Split bts"


section \<open>The ordered key-value store the index is built on\<close>

text \<open>
  The store (goleveldb) is not part of the repository.  It is modelled by what the index
  uses of it: an ordered table of key-value pairs with Get, Has, Put, an atomic Write of a
  batch, and iteration over a key range in key order.  Each operation of the store can fail;
  which ones do is a parameter of the store value (the \<open>*_fault\<close> fields), so that the error
  paths of the index are branches of the model.
\<close>

datatype error = ErrNotFound | ErrIO nat

datatype op = Put string string | Delete string

type_synonym Batch = "op list"

text \<open>A \<^verbatim>\<open>util.Range\<close>: Start is inclusive, Limit exclusive; \<open>None\<close> is the nil range (all keys).\<close>

type_synonym Range = "(string \<times> string) option"

record leveldb =
  kv :: "(string \<times> string) list"
  get_fault :: "string \<Rightarrow> error option"
  has_fault :: "string \<Rightarrow> error option"
  iter_fault :: "Range \<Rightarrow> (nat \<times> error) option"
  write_fault :: "Batch \<Rightarrow> error option"

text \<open>The table is kept in strictly ascending key order: one record per key.\<close>

definition store_inv :: "leveldb \<Rightarrow> bool" where
  "store_inv d = sorted_wrt (<) (map fst (kv d))"

definition healthy :: "leveldb \<Rightarrow> bool" where
  "healthy d = ((\<forall>k. get_fault d k = None) \<and> (\<forall>k. has_fault d k = None)
                 \<and> (\<forall>r. iter_fault d r = None) \<and> (\<forall>b. write_fault d b = None))"

definition keys :: "leveldb \<Rightarrow> string set" where
  "keys d = set (map fst (kv d))"

fun kv_put :: "string \<Rightarrow> string \<Rightarrow> (string \<times> string) list \<Rightarrow> (string \<times> string) list" where
  "kv_put k v [] = [(k, v)]"
| "kv_put k v ((k', v') # r) =
     (if k < k' then (k, v) # (k', v') # r
      else if k = k' then (k, v) # r
      else (k', v') # kv_put k v r)"

definition kv_delete :: "string \<Rightarrow> (string \<times> string) list \<Rightarrow> (string \<times> string) list" where
  "kv_delete k xs = filter (\<lambda>p. fst p \<noteq> k) xs"

fun apply_op :: "(string \<times> string) list \<Rightarrow> op \<Rightarrow> (string \<times> string) list" where
  "apply_op xs (Put k v) = kv_put k v xs"
| "apply_op xs (Delete k) = kv_delete k xs"

definition apply_batch :: "(string \<times> string) list \<Rightarrow> Batch \<Rightarrow> (string \<times> string) list" where
  "apply_batch xs b = foldl apply_op xs b"

definition db_Get :: "leveldb \<Rightarrow> string \<Rightarrow> error + string" where
  "db_Get d k =
     (case get_fault d k of
        Some e \<Rightarrow> Inl e
      | None \<Rightarrow> (case map_of (kv d) k of None \<Rightarrow> Inl ErrNotFound | Some v \<Rightarrow> Inr v))"

definition db_Has :: "leveldb \<Rightarrow> string \<Rightarrow> bool \<times> error option" where
  "db_Has d k =
     (case has_fault d k of
        Some e \<Rightarrow> (False, Some e)
      | None \<Rightarrow> (map_of (kv d) k \<noteq> None, None))"

definition in_range :: "Range \<Rightarrow> string \<Rightarrow> bool" where
  "in_range rng k = (case rng of None \<Rightarrow> True | Some (s, l) \<Rightarrow> s \<le> k \<and> k < l)"

text \<open>
  An iterator over a range: the keys that \<^verbatim>\<open>Next\<close>/\<^verbatim>\<open>Key\<close> deliver, in key order, and
  what \<^verbatim>\<open>Error\<close> reports afterwards.  A failing iterator delivers a prefix of the keys.
\<close>

definition db_Iterate :: "leveldb \<Rightarrow> Range \<Rightarrow> string list \<times> error option" where
  "db_Iterate d rng =
     (let ks = filter (in_range rng) (map fst (kv d))
      in case iter_fault d rng of
           None \<Rightarrow> (ks, None)
         | Some (n, e) \<Rightarrow> (take n ks, Some e))"

text \<open>An atomic write: all operations of the batch in order, or none.\<close>

definition db_Write :: "leveldb \<Rightarrow> Batch \<Rightarrow> leveldb \<times> error option" where
  "db_Write d b =
     (case write_fault d b of
        Some e \<Rightarrow> (d, Some e)
      | None \<Rightarrow> (d\<lparr>kv := apply_batch (kv d) b\<rparr>, None))"


section \<open>The index (db.go)\<close>

subsection \<open>PlaceMIME and Place (lines 51-87)\<close>

definition PlaceMIME :: "leveldb \<Rightarrow> string \<Rightarrow> string \<Rightarrow> leveldb \<times> error option" where
  "PlaceMIME d ref mime = db_Write d [Put (pack mimeType [mime, ref]) []]"

text \<open>The loop over the dependencies: the operations it appends to the batch.\<close>

fun place_deps :: "leveldb \<Rightarrow> string \<Rightarrow> string list \<Rightarrow> Batch" where
  "place_deps d ref [] = []"
| "place_deps d ref (dep # deps) =
     Put (pack parent [dep, ref]) []
     # (if fst (db_Has d (pack found [dep])) then [] else [Put (pack missing [dep, ref]) []])
     @ place_deps d ref deps"

definition missing_range :: "string \<Rightarrow> Range" where
  "missing_range ref = Some (pack missing [ref, start], pack missing [ref, limit])"

text \<open>The batch that Place has built when it reaches \<^verbatim>\<open>d.db.Write\<close>.\<close>

definition place_batch :: "leveldb \<Rightarrow> string \<Rightarrow> string \<Rightarrow> string \<Rightarrow> string list \<Rightarrow> Batch" where
  "place_batch d ref location ct dependencies =
     [Put (pack found [ref]) (pack location []), Put (pack last_key []) (pack location [])]
     @ (if ct \<noteq> [] then [Put (pack camliType [ct, ref]) []] else [])
     @ place_deps d ref dependencies
     @ map Delete (fst (db_Iterate d (missing_range ref)))"

text \<open>
  Place returns the store after the call, the errors it printed (\<^verbatim>\<open>fmt.Println\<close>), and
  its error result.
\<close>

definition Place ::
  "leveldb \<Rightarrow> string \<Rightarrow> string \<Rightarrow> string \<Rightarrow> string list \<Rightarrow> leveldb \<times> error list \<times> error option" where
  "Place d ref location ct dependencies =
     (let b = place_batch d ref location ct dependencies;
          printed = (case snd (db_Iterate d (missing_range ref)) of None \<Rightarrow> [] | Some e \<Rightarrow> [e]);
          (d', err) = db_Write d b
      in (d', printed, err))"

subsection \<open>Last (lines 90-97)\<close>

text \<open>Last returns the location and the errors it logged (\<^verbatim>\<open>log.Print\<close>).\<close>

definition Last :: "leveldb \<Rightarrow> string \<times> error list" where
  "Last d =
     (case db_Get d (pack last_key []) of
        Inr data \<Rightarrow> (data, [])
      | Inl err \<Rightarrow> ([], [err]))"

subsection \<open>Missing, List, ListMIME (lines 100-142)\<close>

text \<open>
  The channel a streaming query returns is modelled by the sequence of values sent on it
  (the producer goroutine scans the store as it is when the query is called).
  \<^verbatim>\<open>parts[refPos]\<close> panics when the key has too few fields: the result is the values sent
  before, and whether the producer panicked.
\<close>

fun stream_keys :: "nat \<Rightarrow> string list \<Rightarrow> string list \<times> bool" where
  "stream_keys refPos [] = ([], False)"
| "stream_keys refPos (k # ks) =
     (let parts = unpack k
      in if refPos < length parts
         then (let (out, panicked) = stream_keys refPos ks in (parts ! refPos # out, panicked))
         else ([], True))"

definition streamBlobs :: "leveldb \<Rightarrow> nat \<Rightarrow> Range \<Rightarrow> string list \<times> bool" where
  "streamBlobs d refPos rng = stream_keys refPos (fst (db_Iterate d rng))"

definition Missing :: "leveldb \<Rightarrow> string list \<times> bool" where
  "Missing d = streamBlobs d 1 (Some (pack missing [start], pack missing [limit]))"

definition List :: "leveldb \<Rightarrow> string \<Rightarrow> string list \<times> bool" where
  "List d ct =
     streamBlobs d 2
       (if ct \<noteq> [] then Some (pack camliType [ct, start], pack camliType [ct, limit])
        else Some (pack camliType [start], pack camliType [limit]))"

definition ListMIME :: "leveldb \<Rightarrow> string \<Rightarrow> string list \<times> bool" where
  "ListMIME d mt = streamBlobs d 2 (Some (pack mimeType [mt, start], pack mimeType [mt, limit]))"

subsection \<open>Stats (lines 144-179)\<close>

text \<open>
  The counters are \<^verbatim>\<open>uint64\<close>, the histogram entries \<^verbatim>\<open>int64\<close>: 64-bit words, whose
  \<open>+ 1\<close> wraps.  The field \<^verbatim>\<open>Missing\<close> is called \<open>Missing_n\<close> here (Missing is the query).
\<close>

record Stats_t =
  Blobs :: "64 word"
  Links :: "64 word"
  Missing_n :: "64 word"
  Unknown :: "64 word"
  CamliTypes :: "string \<rightharpoonup> 64 word"
  MIMETypes :: "string \<rightharpoonup> 64 word"

text \<open>\<^verbatim>\<open>m[k]++\<close> on a Go map: an absent key reads as 0.\<close>

definition incr :: "(string \<rightharpoonup> 64 word) \<Rightarrow> string \<Rightarrow> (string \<rightharpoonup> 64 word)" where
  "incr m k = m(k \<mapsto> (case m k of None \<Rightarrow> 0 | Some c \<Rightarrow> c) + 1)"

text \<open>One turn of the loop; \<open>None\<close> is the panic of \<^verbatim>\<open>parts[1]\<close> on a key without a bar.\<close>

definition stats_step :: "Stats_t \<Rightarrow> string \<Rightarrow> Stats_t option" where
  "stats_step s key =
     (let parts = unpack key; tag = parts ! 0
      in if tag = last_key then Some s
         else if tag = found then Some (s\<lparr>Blobs := Blobs s + 1\<rparr>)
         else if tag = parent then Some (s\<lparr>Links := Links s + 1\<rparr>)
         else if tag = missing then Some (s\<lparr>Missing_n := Missing_n s + 1\<rparr>)
         else if tag = camliType then
           (if 1 < length parts then Some (s\<lparr>CamliTypes := incr (CamliTypes s) (parts ! 1)\<rparr>)
            else None)
         else if tag = mimeType then
           (if 1 < length parts then Some (s\<lparr>MIMETypes := incr (MIMETypes s) (parts ! 1)\<rparr>)
            else None)
         else Some (s\<lparr>Unknown := Unknown s + 1\<rparr>))"

fun stats_loop :: "Stats_t \<Rightarrow> string list \<Rightarrow> Stats_t option" where
  "stats_loop s [] = Some s"
| "stats_loop s (k # ks) = (case stats_step s k of None \<Rightarrow> None | Some s' \<Rightarrow> stats_loop s' ks)"

definition stats_zero :: Stats_t where
  "stats_zero = \<lparr>Blobs = 0, Links = 0, Missing_n = 0, Unknown = 0,
                 CamliTypes = Map.empty, MIMETypes = Map.empty\<rparr>"

definition Stats :: "leveldb \<Rightarrow> Stats_t option" where
  "Stats d = stats_loop stats_zero (fst (db_Iterate d None))"

subsection \<open>Parents and StreamAllParentPaths (lines 182-217)\<close>

definition parent_range :: "string \<Rightarrow> Range" where
  "parent_range ref = Some (pack parent [ref, start], pack parent [ref, limit])"

text \<open>The loop of Parents; \<open>None\<close> is the panic of \<^verbatim>\<open>parts[2]\<close>.\<close>

fun parents_loop :: "string list \<Rightarrow> string list \<Rightarrow> string list option" where
  "parents_loop parents [] = Some parents"
| "parents_loop parents (k # ks) =
     (let parts = unpack k
      in if 2 < length parts then parents_loop (parents @ [parts ! 2]) ks else None)"

definition Parents :: "leveldb \<Rightarrow> string \<Rightarrow> (string list \<times> error option) option" where
  "Parents d ref =
     (case parents_loop [] (fst (db_Iterate d (parent_range ref))) of
        None \<Rightarrow> None
      | Some parents \<Rightarrow> Some (parents, snd (db_Iterate d (parent_range ref))))"

text \<open>
  How a call of \<^verbatim>\<open>streamAllParentPaths\<close> ends: it returns (with its error result) or it
  panics.  The recursion follows the parent edges and need not end, so the model counts
  the depth of calls it may still make: \<open>None\<close> says that this depth was not enough.  The
  first component of a result is the sequence of paths sent on the channel, each path
  with the contents it has when it is sent (\<^verbatim>\<open>append(path, parent)\<close> may share the array
  of \<^verbatim>\<open>path\<close>; what a receiver reads later from a slice it kept is not modelled).
\<close>

datatype ending = Returned "error option" | Panicked

fun streamAllParentPaths ::
  "nat \<Rightarrow> leveldb \<Rightarrow> string list \<Rightarrow> string \<Rightarrow> (string list list \<times> ending) option"
and stream_parents ::
  "nat \<Rightarrow> leveldb \<Rightarrow> string list \<Rightarrow> string list \<Rightarrow> (string list list \<times> ending) option"
where
  "streamAllParentPaths 0 d path ref = None"
| "streamAllParentPaths (Suc n) d path ref =
     (case Parents d ref of
        None \<Rightarrow> Some ([], Panicked)
      | Some (parents, Some err) \<Rightarrow> Some ([], Returned (Some err))
      | Some (parents, None) \<Rightarrow>
          if length parents = 0 then Some ([path], Returned None)
          else stream_parents n d path parents)"
| "stream_parents n d path [] = Some ([], Returned None)"
| "stream_parents n d path (p # ps) =
     (case streamAllParentPaths n d (path @ [p]) p of
        None \<Rightarrow> None
      | Some (out, Returned None) \<Rightarrow>
          (case stream_parents n d path ps of
             None \<Rightarrow> None
           | Some (out', e) \<Rightarrow> Some (out @ out', e))
      | Some (out, e) \<Rightarrow> Some (out, e))"

definition StreamAllParentPaths ::
  "nat \<Rightarrow> leveldb \<Rightarrow> string \<Rightarrow> (string list list \<times> ending) option" where
  "StreamAllParentPaths n d ref = streamAllParentPaths n d [] ref"

subsection \<open>Sequences of calls\<close>

text \<open>A freshly created store, with no failing operation.\<close>

definition empty_db :: leveldb where
  "empty_db = \<lparr>kv = [], get_fault = (\<lambda>_. None), has_fault = (\<lambda>_. None),
               iter_fault = (\<lambda>_. None), write_fault = (\<lambda>_. None)\<rparr>"

datatype call = PlaceCall string string string "string list" | PlaceMIMECall string string

fun exec :: "leveldb \<Rightarrow> call \<Rightarrow> leveldb \<times> error option" where
  "exec d (PlaceCall ref location ct deps) =
     (let (d', printed, err) = Place d ref location ct deps in (d', err))"
| "exec d (PlaceMIMECall ref mime) = PlaceMIME d ref mime"

text \<open>The store after a sequence of calls, and whether every call returned without error.\<close>

fun run :: "leveldb \<Rightarrow> call list \<Rightarrow> leveldb" where
  "run d [] = d"
| "run d (c # cs) = run (fst (exec d c)) cs"

fun all_ok :: "leveldb \<Rightarrow> call list \<Rightarrow> bool" where
  "all_ok d [] = True"
| "all_ok d (c # cs) = (snd (exec d c) = None \<and> all_ok (fst (exec d c)) cs)"


section \<open>Notions used in the statements\<close>

subsection \<open>Well-formed fields\<close>

text \<open>A field without the separator byte, as the key format assumes of every field.\<close>

definition bar_free :: "string \<Rightarrow> bool" where
  "bar_free s = (CHR ''|'' \<notin> set s)"

text \<open>
  A field that the sentinel bounds bracket when it is the final field of a key: it is not
  empty and does not begin with the byte 0xFF.
\<close>

definition bracketed :: "string \<Rightarrow> bool" where
  "bracketed s = (s \<noteq> [] \<and> hd s \<noteq> CHR 0xFF)"

definition valid_ref :: "string \<Rightarrow> bool" where
  "valid_ref s = (bar_free s \<and> bracketed s)"

subsection \<open>Batches and keys\<close>

fun is_Put :: "op \<Rightarrow> bool" where
  "is_Put (Put k v) = True"
| "is_Put (Delete k) = False"

fun op_key :: "op \<Rightarrow> string" where
  "op_key (Put k v) = k"
| "op_key (Delete k) = k"

text \<open>The puts of the batch of Place: the batch without the deletions at its end.\<close>

definition place_puts :: "leveldb \<Rightarrow> string \<Rightarrow> string \<Rightarrow> string \<Rightarrow> string list \<Rightarrow> Batch" where
  "place_puts d ref location ct deps =
     [Put (pack found [ref]) (pack location []), Put (pack last_key []) (pack location [])]
     @ (if ct \<noteq> [] then [Put (pack camliType [ct, ref]) []] else [])
     @ place_deps d ref deps"

text \<open>The first field of a key: the tag that Stats switches on.\<close>

definition key_tag :: "string \<Rightarrow> string" where
  "key_tag k = unpack k ! 0"

subsection \<open>Parent edges\<close>

text \<open>
  The refs that the scan of Parents delivers for a ref (the third field of each key of
  the scan), and the parent edges they induce: \<open>(r, p)\<close> when the scan for \<open>r\<close> delivers \<open>p\<close>.
\<close>

definition parent_refs :: "leveldb \<Rightarrow> string \<Rightarrow> string list" where
  "parent_refs d ref = map (\<lambda>k. unpack k ! 2) (fst (db_Iterate d (parent_range ref)))"

definition up :: "leveldb \<Rightarrow> (string \<times> string) set" where
  "up d = {(r, p). p \<in> set (parent_refs d r)}"

subsection \<open>What a sequence of calls wrote\<close>

text \<open>
  The keys a call puts whatever the store holds: all keys of the call but the missing
  records, which depend on the found records of the store.
\<close>

fun static_keys :: "call \<Rightarrow> string list" where
  "static_keys (PlaceCall ref location ct deps) =
     [pack found [ref], pack last_key []]
     @ (if ct \<noteq> [] then [pack camliType [ct, ref]] else [])
     @ map (\<lambda>dep. pack parent [dep, ref]) deps"
| "static_keys (PlaceMIMECall ref mime) = [pack mimeType [mime, ref]]"

fun call_ref :: "call \<Rightarrow> string" where
  "call_ref (PlaceCall ref location ct deps) = ref"
| "call_ref (PlaceMIMECall ref mime) = ref"

text \<open>
  The refs placed, the dependency edges (dependency, ref), the type records (tag, ref) and
  the MIME records (MIME type, ref) of a sequence of calls, with repetitions.
\<close>

fun placed_refs :: "call list \<Rightarrow> string list" where
  "placed_refs [] = []"
| "placed_refs (PlaceCall ref location ct deps # cs) = ref # placed_refs cs"
| "placed_refs (PlaceMIMECall ref mime # cs) = placed_refs cs"

fun edges :: "call list \<Rightarrow> (string \<times> string) list" where
  "edges [] = []"
| "edges (PlaceCall ref location ct deps # cs) = map (\<lambda>dep. (dep, ref)) deps @ edges cs"
| "edges (PlaceMIMECall ref mime # cs) = edges cs"

fun type_pairs :: "call list \<Rightarrow> (string \<times> string) list" where
  "type_pairs [] = []"
| "type_pairs (PlaceCall ref location ct deps # cs) =
     (if ct \<noteq> [] then [(ct, ref)] else []) @ type_pairs cs"
| "type_pairs (PlaceMIMECall ref mime # cs) = type_pairs cs"

fun mime_pairs :: "call list \<Rightarrow> (string \<times> string) list" where
  "mime_pairs [] = []"
| "mime_pairs (PlaceCall ref location ct deps # cs) = mime_pairs cs"
| "mime_pairs (PlaceMIMECall ref mime # cs) = (mime, ref) # mime_pairs cs"

text \<open>A histogram entry: absent when nothing was counted.\<close>

definition entry :: "nat \<Rightarrow> 64 word option" where
  "entry n = (if n = 0 then None else Some (of_nat n))"

text \<open>A histogram entry after counting n more keys.\<close>

definition bumped :: "64 word option \<Rightarrow> nat \<Rightarrow> 64 word option" where
  "bumped v n = (if n = 0 then v else Some ((case v of None \<Rightarrow> 0 | Some c \<Rightarrow> c) + of_nat n))"

subsection \<open>Missing records of a ref\<close>

text \<open>The range that Missing scans.\<close>

definition all_missing :: Range where
  "all_missing = Some (pack missing [start], pack missing [limit])"

text \<open>The missing records that name a ref as the missing dependency, as Missing reads them.\<close>

definition missing_of :: "leveldb \<Rightarrow> string \<Rightarrow> string set" where
  "missing_of d B = {k \<in> keys d. in_range all_missing k \<and> unpack k ! 1 = B}"

text \<open>
  A call of Place by a well-formed ref other than \<open>B\<close> that declares \<open>B\<close> as a dependency,
  all of its dependencies being free of bars.
\<close>

fun declares :: "string \<Rightarrow> call \<Rightarrow> bool" where
  "declares B (PlaceCall A location ct deps) =
     (B \<in> set deps \<and> A \<noteq> B \<and> valid_ref A \<and> (\<forall>dep \<in> set deps. bar_free dep))"
| "declares B (PlaceMIMECall ref mime) = False"

subsection \<open>Example stores\<close>

text \<open>A store with a last location, and the same store with failing reads.\<close>

definition db_last_a :: leveldb where
  "db_last_a = empty_db\<lparr>kv := [(''last'', ''/a'')]\<rparr>"

definition db_get_fails :: leveldb where
  "db_get_fails = empty_db\<lparr>kv := [(''last'', ''/a'')], get_fault := (\<lambda>_. Some (ErrIO 5))\<rparr>"

text \<open>The store after Place("r1", "/a", "note", ["r2"]), and after placing r1 again at "/b".\<close>

definition db_r1 :: leveldb where
  "db_r1 = empty_db\<lparr>kv := [(''found|r1'', ''/a''), (''last'', ''/a''), (''missing|r2|r1'', []),
                          (''parent|r2|r1'', []), (''type|note|r1'', [])]\<rparr>"

definition db_r1_twice :: leveldb where
  "db_r1_twice = empty_db\<lparr>kv := [(''found|r1'', ''/b''), (''last'', ''/b''), (''missing|r2|r1'', []),
                          (''parent|r2|r1'', []), (''type|note|r1'', [])]\<rparr>"

text \<open>
  A store holding the chain A, B, C (A declares B, B declares C), and the same store with
  a failing scan of the parents of B.
\<close>

definition db_chain :: leveldb where
  "db_chain = empty_db\<lparr>kv := [(''found|A'', ''/a''), (''found|B'', ''/b''), (''found|C'', ''/c''),
     (''last'', ''/c''), (''parent|B|A'', []), (''parent|C|B'', [])]\<rparr>"

definition db_chain_bad :: leveldb where
  "db_chain_bad = db_chain\<lparr>iter_fault :=
     (\<lambda>r. if r = parent_range ''B'' then Some (0, ErrIO 7) else None)\<rparr>"

text \<open>A store with one missing record whose deletion scan fails.\<close>

definition db_scan_bad :: leveldb where
  "db_scan_bad = empty_db\<lparr>kv := [(''missing|r2|r1'', [])],
     iter_fault := (\<lambda>r. if r = missing_range ''r2'' then Some (0, ErrIO 9) else None)\<rparr>"

text \<open>A fresh store on which the deletion scan for B fails before it delivers a key.\<close>

definition db_fresh_bad :: leveldb where
  "db_fresh_bad = empty_db\<lparr>iter_fault :=
     (\<lambda>r. if r = missing_range ''B'' then Some (0, ErrIO 9) else None)\<rparr>"


section \<open>Properties of the key encoding\<close>

lemmas consts_defs =
  found_def missing_def parent_def last_key_def camliType_def mimeType_def start_def limit_def

lemma char_ge_00: "CHR 0x00 \<le> (c::char)"
  by (simp add: less_eq_char_def)

lemma of_char_lt_256: "(of_char c :: nat) < 256"
proof -
  have "(of_char c :: nat) mod 256 = of_char c" by (rule of_char_mod_256)
  moreover have "(of_char c :: nat) mod 256 < 256" by simp
  ultimately show ?thesis by simp
qed

lemma char_le_FF: "(c::char) \<le> CHR 0xFF"
proof -
  have "(of_char c :: nat) \<le> 255" using of_char_lt_256 [of c] by linarith
  then show ?thesis by (simp add: less_eq_char_def)
qed

lemma char_less_FF: "(c::char) < CHR 0xFF \<longleftrightarrow> c \<noteq> CHR 0xFF"
  using char_le_FF [of c] by auto

lemma sentinel_range:
  "(p @ [CHR 0x00] \<le> k \<and> k < p @ [CHR 0xFF]) \<longleftrightarrow> (\<exists>c r. k = p @ c # r \<and> c \<noteq> CHR 0xFF)"
proof (induction p arbitrary: k)
  case Nil
  show ?case
  proof (cases k)
    case Nil
    then show ?thesis by simp
  next
    case (Cons c r)
    then show ?thesis using char_ge_00 [of c] by (auto simp: char_less_FF)
  qed
next
  case (Cons a p)
  show ?case
  proof (cases k)
    case Nil
    then show ?thesis by simp
  next
    case (Cons b k')
    show ?thesis
    proof (cases "a = b")
      case True
      then show ?thesis using Cons.IH [of k'] Cons by simp
    next
      case False
      then show ?thesis using Cons by auto
    qed
  qed
qed

lemma pack_concat: "pack b fs = b @ concat (map (\<lambda>f. CHR ''|'' # f) fs)"
  by (induction fs arbitrary: b) simp_all

lemma Split_not_Nil: "Split s \<noteq> []"
  by (induction s) (auto split: list.splits)

lemma length_Split: "length (Split s) = Suc (length (filter (\<lambda>c. c = CHR ''|'') s))"
  by (induction s) (auto split: list.splits simp: Split_not_Nil)

lemma Split_bar_free: "bar_free s \<Longrightarrow> Split s = [s]"
  by (induction s) (auto simp: bar_free_def)

lemma Split_append_bar: "bar_free a \<Longrightarrow> Split (a @ CHR ''|'' # b) = a # Split b"
  by (induction a) (auto simp: bar_free_def split: list.splits)

lemma Split_hd_append: "bar_free a \<Longrightarrow> Split (a @ CHR ''|'' # b) ! 0 = a"
  by (simp add: Split_append_bar)

section \<open>Properties of the store operations\<close>

lemma keys_kv_put: "set (map fst (kv_put k v xs)) = insert k (set (map fst xs))"
proof (induction xs)
  case Nil
  show ?case by simp
next
  case (Cons x xs)
  obtain k' v' where x: "x = (k', v')" by (cases x)
  show ?case unfolding x using Cons.IH by (simp del: set_map) blast
qed

lemma sorted_kv_put:
  "sorted_wrt (<) (map fst xs) \<Longrightarrow> sorted_wrt (<) (map fst (kv_put k v xs))"
proof (induction xs)
  case Nil
  then show ?case by simp
next
  case (Cons x xs)
  obtain k' v' where x: "x = (k', v')" by (cases x)
  from Cons.prems x have above: "\<forall>y \<in> set (map fst xs). k' < y" and srt: "sorted_wrt (<) (map fst xs)"
    by simp_all
  show ?case
  proof (cases "k < k'")
    case True
    with above have "\<forall>y \<in> set (map fst xs). k < y" by (meson less_trans)
    with True above srt x show ?thesis by simp
  next
    case False
    show ?thesis
    proof (cases "k = k'")
      case True
      with above srt x show ?thesis by simp
    next
      case neq: False
      with False have "k' < k" by simp
      moreover have "sorted_wrt (<) (map fst (kv_put k v xs))" using Cons.IH srt by simp
      ultimately show ?thesis using False neq above x
        by (simp del: set_map add: keys_kv_put)
    qed
  qed
qed

lemma map_of_kv_put: "map_of (kv_put k v xs) = (map_of xs)(k \<mapsto> v)"
  by (induction xs) (auto simp: fun_upd_twist)

lemma keys_kv_delete: "set (map fst (kv_delete k xs)) = set (map fst xs) - {k}"
  by (auto simp: kv_delete_def)

lemma sorted_kv_delete:
  "sorted_wrt (<) (map fst xs) \<Longrightarrow> sorted_wrt (<) (map fst (kv_delete k xs))"
  by (simp add: kv_delete_def sorted_wrt_map sorted_wrt_filter)

lemma map_of_kv_delete: "map_of (kv_delete k xs) = (map_of xs)(k := None)"
  by (induction xs) (auto simp: kv_delete_def)

lemma sorted_apply_op:
  "sorted_wrt (<) (map fst xs) \<Longrightarrow> sorted_wrt (<) (map fst (apply_op xs x))"
  by (cases x) (simp_all add: sorted_kv_put sorted_kv_delete)

lemma sorted_apply_batch:
  "sorted_wrt (<) (map fst xs) \<Longrightarrow> sorted_wrt (<) (map fst (apply_batch xs b))"
  unfolding apply_batch_def by (induction b arbitrary: xs) (simp_all add: sorted_apply_op)

lemma apply_batch_append: "apply_batch xs (a @ b) = apply_batch (apply_batch xs a) b"
  by (simp add: apply_batch_def)

lemma apply_batch_Cons: "apply_batch xs (x # b) = apply_batch (apply_op xs x) b"
  by (simp add: apply_batch_def)

lemma apply_batch_Nil: "apply_batch xs [] = xs"
  by (simp add: apply_batch_def)

lemma keys_apply_puts:
  "\<forall>x \<in> set b. is_Put x \<Longrightarrow>
     set (map fst (apply_batch xs b)) = set (map fst xs) \<union> op_key ` set b"
proof (induction b arbitrary: xs)
  case Nil
  then show ?case by (simp add: apply_batch_Nil)
next
  case (Cons x b)
  then show ?case by (cases x) (auto simp del: set_map simp: apply_batch_Cons keys_kv_put)
qed

lemma keys_apply_deletes:
  "set (map fst (apply_batch xs (map Delete ks))) = set (map fst xs) - set ks"
proof (induction ks arbitrary: xs)
  case Nil
  then show ?case by (simp add: apply_batch_Nil)
next
  case (Cons k ks)
  then show ?case by (auto simp del: set_map simp: apply_batch_Cons keys_kv_delete)
qed

lemma map_of_apply_untouched:
  "k \<notin> op_key ` set b \<Longrightarrow> map_of (apply_batch xs b) k = map_of xs k"
proof (induction b arbitrary: xs)
  case Nil
  then show ?case by (simp add: apply_batch_Nil)
next
  case (Cons x b)
  then show ?case by (cases x) (auto simp: apply_batch_Cons map_of_kv_put map_of_kv_delete)
qed

lemma map_of_apply_puts_deletes:
  "map_of (apply_batch xs (map Delete ks)) k = (if k \<in> set ks then None else map_of xs k)"
proof (induction ks arbitrary: xs)
  case Nil
  then show ?case by (simp add: apply_batch_Nil)
next
  case (Cons a ks)
  then show ?case by (auto simp: apply_batch_Cons map_of_kv_delete)
qed

lemma strict_sorted_unique:
  "sorted_wrt (<) xs \<Longrightarrow> sorted_wrt (<) ys \<Longrightarrow> set xs = set ys \<Longrightarrow> xs = (ys :: string list)"
  by (metis strict_sorted_equal)

lemma count_one:
  "sorted_wrt (<) (map fst (xs :: (string \<times> string) list)) \<Longrightarrow> k \<in> set (map fst xs) \<Longrightarrow> length (filter (\<lambda>p. fst p = k) xs) = 1"
proof (induction xs)
  case Nil
  then show ?case by simp
next
  case (Cons x xs)
  show ?case
  proof (cases "fst x = k")
    case True
    from Cons.prems(1) have "\<forall>y \<in> set xs. fst x < fst y" by simp
    with True have "\<forall>y \<in> set xs. fst y \<noteq> k" by (metis less_irrefl)
    then have "filter (\<lambda>p. fst p = k) xs = []" by (simp add: filter_empty_conv)
    with True show ?thesis by simp
  next
    case False
    with Cons show ?thesis by auto
  qed
qed

section \<open>Range scans\<close>

lemma bracketed_Cons: "bracketed f \<longleftrightarrow> (\<exists>c r. f = c # r \<and> c \<noteq> CHR 0xFF)"
  by (cases f) (simp_all add: bracketed_def)

lemma in_range_fields2:
  "in_range (Some (pack t [r, start], pack t [r, limit])) k
     \<longleftrightarrow> (\<exists>f. k = pack t [r, f] \<and> bracketed f)"
proof -
  have "in_range (Some (pack t [r, start], pack t [r, limit])) k
          \<longleftrightarrow> ((t @ CHR ''|'' # r @ [CHR ''|'']) @ [CHR 0x00] \<le> k
                \<and> k < (t @ CHR ''|'' # r @ [CHR ''|'']) @ [CHR 0xFF])"
    by (simp add: in_range_def start_def limit_def)
  also have "\<dots> \<longleftrightarrow> (\<exists>c x. k = (t @ CHR ''|'' # r @ [CHR ''|'']) @ c # x \<and> c \<noteq> CHR 0xFF)"
    by (rule sentinel_range)
  also have "\<dots> \<longleftrightarrow> (\<exists>f. k = pack t [r, f] \<and> bracketed f)"
    by (auto simp: bracketed_Cons)
  finally show ?thesis .
qed

lemma in_range_fields1:
  "in_range (Some (pack t [start], pack t [limit])) k
     \<longleftrightarrow> (\<exists>f. k = pack t [f] \<and> bracketed f)"
proof -
  have "in_range (Some (pack t [start], pack t [limit])) k
          \<longleftrightarrow> ((t @ [CHR ''|'']) @ [CHR 0x00] \<le> k \<and> k < (t @ [CHR ''|'']) @ [CHR 0xFF])"
    by (simp add: in_range_def start_def limit_def)
  also have "\<dots> \<longleftrightarrow> (\<exists>c x. k = (t @ [CHR ''|'']) @ c # x \<and> c \<noteq> CHR 0xFF)"
    by (rule sentinel_range)
  also have "\<dots> \<longleftrightarrow> (\<exists>f. k = pack t [f] \<and> bracketed f)"
    by (auto simp: bracketed_Cons)
  finally show ?thesis .
qed

lemma set_db_Iterate_subset:
  "set (fst (db_Iterate d rng)) \<subseteq> {k \<in> keys d. in_range rng k}"
  by (auto simp: db_Iterate_def keys_def Let_def split: option.splits dest: in_set_takeD)

lemma db_Iterate_no_fault:
  "iter_fault d rng = None \<Longrightarrow> db_Iterate d rng = (filter (in_range rng) (map fst (kv d)), None)"
  by (simp add: db_Iterate_def)

lemma missing_scan_keys:
  "k \<in> set (fst (db_Iterate d (missing_range ref))) \<Longrightarrow> \<exists>f. k = pack missing [ref, f] \<and> bracketed f"
proof -
  assume "k \<in> set (fst (db_Iterate d (missing_range ref)))"
  with set_db_Iterate_subset [of d "missing_range ref"]
  have "in_range (missing_range ref) k" by blast
  then show ?thesis by (simp only: missing_range_def in_range_fields2)
qed

text \<open>
  Claim C9.  Last returns the value stored under the key \<^verbatim>\<open>last\<close> when the key exists and
  the read succeeds, logging nothing.  When the key is absent it returns the empty string
  (the store's not-found error is logged), and when the read fails it returns the empty
  string and logs the error.  The result type of Last has no error component: nothing is
  raised to the caller.
\<close>

theorem Last_result:
  "(get_fault d (pack last_key []) = None \<and> map_of (kv d) (pack last_key []) = Some location
       \<longrightarrow> Last d = (location, []))
   \<and> (get_fault d (pack last_key []) = None \<and> map_of (kv d) (pack last_key []) = None
       \<longrightarrow> Last d = ([], [ErrNotFound]))
   \<and> (get_fault d (pack last_key []) = Some e \<longrightarrow> Last d = ([], [e]))"
  by (simp add: Last_def db_Get_def)

theorem Last_result_witness:
  "Last db_last_a = (''/a'', []) \<and> Last empty_db = ([], [ErrNotFound])
   \<and> Last db_get_fails = ([], [ErrIO 5])"
proof -
  have a: "get_fault db_last_a (pack last_key []) = None
           \<and> map_of (kv db_last_a) (pack last_key []) = Some ''/a''"
    by (simp add: db_last_a_def empty_db_def last_key_def)
  have b: "get_fault empty_db (pack last_key []) = None
           \<and> map_of (kv empty_db) (pack last_key []) = None"
    by (simp add: empty_db_def)
  have c: "get_fault db_get_fails (pack last_key []) = Some (ErrIO 5)"
    by (simp add: db_get_fails_def empty_db_def)
  show ?thesis
    using Last_result [of db_last_a "''/a''" "ErrIO 5"] Last_result [of empty_db "''/a''" "ErrIO 5"]
      Last_result [of db_get_fails "''/a''" "ErrIO 5"] a b c
    by blast
qed

section \<open>The batch of Place\<close>

declare pack.simps(2) [simp del]

lemma unpack_pack_tag: "bar_free t \<Longrightarrow> unpack (pack t fs) ! 0 = t"
  by (cases fs) (simp_all add: unpack_def pack_concat Split_bar_free Split_append_bar)

lemma bar_free_tags:
  "bar_free found" "bar_free missing" "bar_free parent" "bar_free last_key"
  "bar_free camliType" "bar_free mimeType"
  by (simp_all add: bar_free_def consts_defs)

lemma tags_distinct:
  "distinct [found, missing, parent, last_key, camliType, mimeType]"
  by (simp add: consts_defs)

lemma pack_tag_neq:
  "bar_free t \<Longrightarrow> bar_free t' \<Longrightarrow> t \<noteq> t' \<Longrightarrow> pack t fs \<noteq> pack t' fs'"
  using unpack_pack_tag by metis

lemma pack_inject1: "pack t [a] = pack t [b] \<longleftrightarrow> a = b"
  by (simp add: pack_concat)

lemma place_deps_cases:
  "x \<in> set (place_deps d ref deps) \<Longrightarrow>
     \<exists>dep \<in> set deps. x = Put (pack parent [dep, ref]) [] \<or> x = Put (pack missing [dep, ref]) []"
  by (induction deps) (auto split: if_splits)

lemma place_deps_parent:
  "dep \<in> set deps \<Longrightarrow> Put (pack parent [dep, ref]) [] \<in> set (place_deps d ref deps)"
  by (induction deps) auto

lemma place_deps_missing:
  "dep \<in> set deps \<Longrightarrow> \<not> fst (db_Has d (pack found [dep])) \<Longrightarrow>
     Put (pack missing [dep, ref]) [] \<in> set (place_deps d ref deps)"
  by (induction deps) auto

lemma db_Has_absent: "map_of (kv d) k = None \<Longrightarrow> \<not> fst (db_Has d k)"
  by (simp add: db_Has_def split: option.splits)

lemma db_Has_healthy: "has_fault d k = None \<Longrightarrow> fst (db_Has d k) \<longleftrightarrow> k \<in> keys d"
  by (simp add: db_Has_def keys_def map_of_eq_None_iff)

lemma Place_ok:
  "Place d ref location ct deps = (d', printed, None) \<Longrightarrow>
     d' = d\<lparr>kv := apply_batch (kv d) (place_batch d ref location ct deps)\<rparr>"
  by (auto simp: Place_def db_Write_def Let_def split: option.splits)

lemma Place_failed:
  "Place d ref location ct deps = (d', printed, Some e) \<Longrightarrow> d' = d"
  by (auto simp: Place_def db_Write_def Let_def split: option.splits)

lemma place_batch_tail_tags:
  assumes "x \<in> set ((if ct \<noteq> [] then [Put (pack camliType [ct, ref]) []] else [])
                    @ place_deps d ref deps
                    @ map Delete (fst (db_Iterate d (missing_range ref))))"
  shows "unpack (op_key x) ! 0 \<in> {camliType, parent, missing}"
proof -
  from assms consider "x = Put (pack camliType [ct, ref]) []"
    | "x \<in> set (place_deps d ref deps)"
    | k where "x = Delete k" "k \<in> set (fst (db_Iterate d (missing_range ref)))"
    by (auto split: if_splits)
  then show ?thesis
  proof cases
    case 1
    then show ?thesis using unpack_pack_tag [OF bar_free_tags(5)] by simp
  next
    case 2
    then show ?thesis
      using place_deps_cases [of x d ref deps] unpack_pack_tag [OF bar_free_tags(3)]
        unpack_pack_tag [OF bar_free_tags(2)] by auto
  next
    case 3
    then show ?thesis
      using missing_scan_keys [of k d ref] unpack_pack_tag [OF bar_free_tags(2)] by auto
  qed
qed

lemma Place_found_value:
  assumes "Place d ref location ct deps = (d', printed, None)"
  shows "map_of (kv d') (pack found [ref]) = Some location"
    and "map_of (kv d') (pack last_key []) = Some location"
proof -
  let ?tail = "(if ct \<noteq> [] then [Put (pack camliType [ct, ref]) []] else [])
                 @ place_deps d ref deps
                 @ map Delete (fst (db_Iterate d (missing_range ref)))"
  let ?xs = "apply_op (apply_op (kv d) (Put (pack found [ref]) location)) (Put (pack last_key []) location)"
  have kv: "kv d' = apply_batch ?xs ?tail"
    using Place_ok [OF assms] by (simp add: place_batch_def apply_batch_Cons)
  have tags: "\<forall>x \<in> set ?tail. unpack (op_key x) ! 0 \<in> {camliType, parent, missing}"
    using place_batch_tail_tags by blast
  have nf: "pack found [ref] \<notin> op_key ` set ?tail"
  proof
    assume "pack found [ref] \<in> op_key ` set ?tail"
    then obtain x where "x \<in> set ?tail" "op_key x = pack found [ref]" by force
    with tags have "unpack (pack found [ref]) ! 0 \<in> {camliType, parent, missing}" by metis
    then have "found \<in> {camliType, parent, missing}"
      by (simp only: unpack_pack_tag [OF bar_free_tags(1)])
    then show False by (simp add: consts_defs)
  qed
  have nl: "pack last_key [] \<notin> op_key ` set ?tail"
  proof
    assume "pack last_key [] \<in> op_key ` set ?tail"
    then obtain x where "x \<in> set ?tail" "op_key x = pack last_key []" by force
    with tags have "unpack (pack last_key []) ! 0 \<in> {camliType, parent, missing}" by metis
    then have "last_key \<in> {camliType, parent, missing}"
      by (simp only: unpack_pack_tag [OF bar_free_tags(4)])
    then show False by (simp add: consts_defs)
  qed
  have neq: "pack found [ref] \<noteq> pack last_key []"
    by (simp add: pack_concat consts_defs)
  show "map_of (kv d') (pack found [ref]) = Some location"
    unfolding kv map_of_apply_untouched [OF nf] using neq by (simp add: map_of_kv_put)
  show "map_of (kv d') (pack last_key []) = Some location"
    unfolding kv map_of_apply_untouched [OF nl] by (simp add: map_of_kv_put)
qed

lemma Place_store_inv:
  "store_inv d \<Longrightarrow> store_inv (fst (Place d ref location ct deps))"
  by (auto simp: store_inv_def Place_def db_Write_def Let_def sorted_apply_batch split: option.splits)

lemma the_record:
  "sorted_wrt (<) (map fst (xs :: (string \<times> string) list)) \<Longrightarrow> map_of xs k = Some v \<Longrightarrow>
     filter (\<lambda>p. fst p = k) xs = [(k, v)]"
proof (induction xs)
  case Nil
  then show ?case by simp
next
  case (Cons x xs)
  from Cons.prems(1) have above: "\<forall>y \<in> set xs. fst x < fst y" and srt: "sorted_wrt (<) (map fst xs)"
    by simp_all
  show ?case
  proof (cases "fst x = k")
    case True
    with above have "\<forall>y \<in> set xs. fst y \<noteq> k" by (metis less_irrefl)
    then have "filter (\<lambda>p. fst p = k) xs = []" by (simp add: filter_empty_conv)
    moreover from True Cons.prems(2) have "x = (k, v)" by (cases x) simp
    ultimately show ?thesis by simp
  next
    case False
    with Cons.prems(2) have "map_of xs k = Some v" by (cases x) (simp split: if_splits)
    with Cons.IH srt False show ?thesis by simp
  qed
qed

lemma place_batch_split:
  "place_batch d ref location ct deps =
     place_puts d ref location ct deps @ map Delete (fst (db_Iterate d (missing_range ref)))"
  by (simp add: place_batch_def place_puts_def)

lemma place_deps_all_Put: "\<forall>x \<in> set (place_deps d ref deps). is_Put x"
  by (induction deps) auto

lemma place_puts_all_Put: "\<forall>x \<in> set (place_puts d ref location ct deps). is_Put x"
  using place_deps_all_Put [of d ref deps] by (auto simp: place_puts_def)

lemma Place_keys:
  assumes "Place d ref location ct deps = (d', printed, None)"
  shows "keys d' = (keys d \<union> op_key ` set (place_puts d ref location ct deps))
                    - set (fst (db_Iterate d (missing_range ref)))"
proof -
  have "kv d' = apply_batch (apply_batch (kv d) (place_puts d ref location ct deps))
                  (map Delete (fst (db_Iterate d (missing_range ref))))"
    using Place_ok [OF assms] by (simp add: place_batch_split apply_batch_append)
  then show ?thesis
    unfolding keys_def
    by (simp only: keys_apply_deletes keys_apply_puts [OF place_puts_all_Put])
qed

lemma scanned_not_tag:
  assumes "bar_free t" "t \<noteq> missing"
  shows "pack t fs \<notin> set (fst (db_Iterate d (missing_range ref)))"
proof
  assume "pack t fs \<in> set (fst (db_Iterate d (missing_range ref)))"
  then obtain f where "pack t fs = pack missing [ref, f]" using missing_scan_keys by blast
  then have "unpack (pack t fs) ! 0 = unpack (pack missing [ref, f]) ! 0" by simp
  then show False
    using assms by (simp only: unpack_pack_tag [OF assms(1)] unpack_pack_tag [OF bar_free_tags(2)])
qed

text \<open>
  Claim C1.  When Place returns without error, the store after the call is the store
  before it with the whole batch applied (the write is atomic), and the batch holds: the
  put of \<^verbatim>\<open>found|ref\<close> with the location; the put of \<^verbatim>\<open>last\<close> with the location; the put
  of \<^verbatim>\<open>type|typeTag|ref\<close> if and only if the type tag is not empty; for each dependency the
  put of \<^verbatim>\<open>parent|dep|ref\<close>; and for each dependency without a found record in the store
  the call started from, the put of \<^verbatim>\<open>missing|dep|ref\<close>.  The found record, the last key,
  the type record and the parent edges are in the store after the call, and so is each of
  these missing records unless the deletion scan of the same call delivered its key.
\<close>

theorem Place_writes_one_batch:
  assumes "Place d ref location ct deps = (d', printed, None)"
  shows "kv d' = apply_batch (kv d) (place_batch d ref location ct deps)
    \<and> Put (pack found [ref]) location \<in> set (place_batch d ref location ct deps)
    \<and> Put (pack last_key []) location \<in> set (place_batch d ref location ct deps)
    \<and> (Put (pack camliType [ct, ref]) [] \<in> set (place_batch d ref location ct deps) \<longleftrightarrow> ct \<noteq> [])
    \<and> (\<forall>dep \<in> set deps. Put (pack parent [dep, ref]) [] \<in> set (place_batch d ref location ct deps))
    \<and> (\<forall>dep \<in> set deps. map_of (kv d) (pack found [dep]) = None \<longrightarrow>
          Put (pack missing [dep, ref]) [] \<in> set (place_batch d ref location ct deps))
    \<and> map_of (kv d') (pack found [ref]) = Some location
    \<and> map_of (kv d') (pack last_key []) = Some location
    \<and> (ct \<noteq> [] \<longrightarrow> pack camliType [ct, ref] \<in> keys d')
    \<and> (\<forall>dep \<in> set deps. pack parent [dep, ref] \<in> keys d')
    \<and> (\<forall>dep \<in> set deps. map_of (kv d) (pack found [dep]) = None
          \<and> pack missing [dep, ref] \<notin> set (fst (db_Iterate d (missing_range ref))) \<longrightarrow>
          pack missing [dep, ref] \<in> keys d')"
proof -
  let ?b = "place_batch d ref location ct deps"
  have 1: "kv d' = apply_batch (kv d) ?b" using Place_ok [OF assms] by simp
  have 2: "Put (pack found [ref]) location \<in> set ?b" by (simp add: place_batch_def)
  have 3: "Put (pack last_key []) location \<in> set ?b" by (simp add: place_batch_def)
  have no_type: "Put (pack camliType [ct, ref]) [] \<notin> set (place_deps d ref deps)"
  proof
    assume "Put (pack camliType [ct, ref]) [] \<in> set (place_deps d ref deps)"
    then obtain dep where "pack camliType [ct, ref] = pack parent [dep, ref]
        \<or> pack camliType [ct, ref] = pack missing [dep, ref]"
      using place_deps_cases by blast
    then show False by (auto simp: pack_concat consts_defs)
  qed
  have 4: "Put (pack camliType [ct, ref]) [] \<in> set ?b \<longleftrightarrow> ct \<noteq> []"
    using no_type by (auto simp: place_batch_def pack_concat consts_defs)
  have 5: "\<forall>dep \<in> set deps. Put (pack parent [dep, ref]) [] \<in> set ?b"
    by (simp add: place_batch_def place_deps_parent)
  have 6: "\<forall>dep \<in> set deps. map_of (kv d) (pack found [dep]) = None \<longrightarrow>
             Put (pack missing [dep, ref]) [] \<in> set ?b"
    by (simp add: place_batch_def place_deps_missing db_Has_absent)
  note 7 = Place_found_value [OF assms]
  have keys: "keys d' = (keys d \<union> op_key ` set (place_puts d ref location ct deps))
                    - set (fst (db_Iterate d (missing_range ref)))"
    by (rule Place_keys [OF assms])
  have 8: "ct \<noteq> [] \<longrightarrow> pack camliType [ct, ref] \<in> keys d'"
  proof
    assume "ct \<noteq> []"
    then have "Put (pack camliType [ct, ref]) [] \<in> set (place_puts d ref location ct deps)"
      by (simp add: place_puts_def)
    then have "pack camliType [ct, ref] \<in> op_key ` set (place_puts d ref location ct deps)"
      by force
    moreover have "pack camliType [ct, ref] \<notin> set (fst (db_Iterate d (missing_range ref)))"
      by (rule scanned_not_tag [OF bar_free_tags(5)]) (simp add: consts_defs)
    ultimately show "pack camliType [ct, ref] \<in> keys d'" unfolding keys by blast
  qed
  have 9: "\<forall>dep \<in> set deps. pack parent [dep, ref] \<in> keys d'"
  proof
    fix dep assume "dep \<in> set deps"
    then have "Put (pack parent [dep, ref]) [] \<in> set (place_puts d ref location ct deps)"
      by (simp add: place_puts_def place_deps_parent)
    then have "pack parent [dep, ref] \<in> op_key ` set (place_puts d ref location ct deps)"
      by force
    moreover have "pack parent [dep, ref] \<notin> set (fst (db_Iterate d (missing_range ref)))"
      by (rule scanned_not_tag [OF bar_free_tags(3)]) (simp add: consts_defs)
    ultimately show "pack parent [dep, ref] \<in> keys d'" unfolding keys by blast
  qed
  have 10: "\<forall>dep \<in> set deps. map_of (kv d) (pack found [dep]) = None
          \<and> pack missing [dep, ref] \<notin> set (fst (db_Iterate d (missing_range ref))) \<longrightarrow>
          pack missing [dep, ref] \<in> keys d'"
  proof (intro ballI impI)
    fix dep assume dep: "dep \<in> set deps"
      and a: "map_of (kv d) (pack found [dep]) = None
          \<and> pack missing [dep, ref] \<notin> set (fst (db_Iterate d (missing_range ref)))"
    from dep a have "Put (pack missing [dep, ref]) [] \<in> set (place_puts d ref location ct deps)"
      by (simp add: place_puts_def place_deps_missing db_Has_absent)
    then have "pack missing [dep, ref] \<in> op_key ` set (place_puts d ref location ct deps)"
      by force
    with a show "pack missing [dep, ref] \<in> keys d'" unfolding keys by blast
  qed
  from 1 2 3 4 5 6 7 8 9 10 show ?thesis by blast
qed

lemmas eval_defs =
  Place_def place_batch_def place_deps.simps db_Write_def db_Iterate_def db_Has_def
  apply_batch_def empty_db_def consts_defs missing_range_def in_range_def kv_delete_def
  pack.simps Let_def

lemma Place_r1: "Place empty_db ''r1'' ''/a'' ''note'' [''r2''] = (db_r1, [], None)"
  by (simp add: eval_defs db_r1_def)

theorem Place_writes_one_batch_witness:
  "Place empty_db ''r1'' ''/a'' ''note'' [''r2''] = (db_r1, [], None)
   \<and> Put ''found|r1'' ''/a'' \<in> set (place_batch empty_db ''r1'' ''/a'' ''note'' [''r2''])
   \<and> Put ''last'' ''/a'' \<in> set (place_batch empty_db ''r1'' ''/a'' ''note'' [''r2''])
   \<and> Put ''type|note|r1'' [] \<in> set (place_batch empty_db ''r1'' ''/a'' ''note'' [''r2''])
   \<and> Put ''parent|r2|r1'' [] \<in> set (place_batch empty_db ''r1'' ''/a'' ''note'' [''r2''])
   \<and> Put ''missing|r2|r1'' [] \<in> set (place_batch empty_db ''r1'' ''/a'' ''note'' [''r2''])
   \<and> map_of (kv db_r1) ''found|r1'' = Some ''/a''"
proof -
  have absent: "map_of (kv empty_db) (pack found [''r2'']) = None" by (simp add: empty_db_def)
  note all = Place_writes_one_batch [OF Place_r1]
  from all have rest:
    "Put (pack found [''r1'']) ''/a'' \<in> set (place_batch empty_db ''r1'' ''/a'' ''note'' [''r2''])
    \<and> Put (pack last_key []) ''/a'' \<in> set (place_batch empty_db ''r1'' ''/a'' ''note'' [''r2''])
    \<and> (Put (pack camliType [''note'', ''r1'']) []
          \<in> set (place_batch empty_db ''r1'' ''/a'' ''note'' [''r2'']) \<longleftrightarrow> ''note'' \<noteq> [])
    \<and> (\<forall>dep \<in> set [''r2'']. Put (pack parent [dep, ''r1'']) []
          \<in> set (place_batch empty_db ''r1'' ''/a'' ''note'' [''r2'']))
    \<and> (\<forall>dep \<in> set [''r2'']. map_of (kv empty_db) (pack found [dep]) = None \<longrightarrow>
          Put (pack missing [dep, ''r1'']) [] \<in> set (place_batch empty_db ''r1'' ''/a'' ''note'' [''r2'']))
    \<and> map_of (kv db_r1) (pack found [''r1'']) = Some ''/a''"
    by blast
  from rest absent Place_r1 show ?thesis
    by (simp add: pack.simps consts_defs)
qed

text \<open>
  Claim C7.  After two successful calls of Place for the same ref, the store holds exactly
  one record under \<^verbatim>\<open>found|ref\<close>, and its value is the location of the second call; the
  same holds for the key \<^verbatim>\<open>last\<close>, which Last then returns.
\<close>

theorem Place_twice_found:
  assumes "store_inv d"
    and "Place d ref location1 ct1 deps1 = (d1, printed1, None)"
    and "Place d1 ref location2 ct2 deps2 = (d2, printed2, None)"
  shows "filter (\<lambda>p. fst p = pack found [ref]) (kv d2) = [(pack found [ref], location2)]
    \<and> filter (\<lambda>p. fst p = pack last_key []) (kv d2) = [(pack last_key [], location2)]
    \<and> (get_fault d2 (pack last_key []) = None \<longrightarrow> Last d2 = (location2, []))"
proof -
  have "store_inv d1" using Place_store_inv [OF assms(1), of ref location1 ct1 deps1] assms(2) by simp
  then have "store_inv d2" using Place_store_inv [of d1 ref location2 ct2 deps2] assms(3) by simp
  then have srt: "sorted_wrt (<) (map fst (kv d2))" by (simp add: store_inv_def)
  note vals = Place_found_value [OF assms(3)]
  have "get_fault d2 (pack last_key []) = None \<longrightarrow> Last d2 = (location2, [])"
    using vals(2) by (simp add: Last_def db_Get_def)
  with the_record [OF srt vals(1)] the_record [OF srt vals(2)] show ?thesis by simp
qed

lemma Place_r1_again: "Place db_r1 ''r1'' ''/b'' [] [] = (db_r1_twice, [], None)"
  by (simp add: eval_defs db_r1_def db_r1_twice_def)

theorem Place_twice_found_witness:
  "store_inv empty_db
   \<and> Place empty_db ''r1'' ''/a'' ''note'' [''r2''] = (db_r1, [], None)
   \<and> Place db_r1 ''r1'' ''/b'' [] [] = (db_r1_twice, [], None)
   \<and> filter (\<lambda>p. fst p = ''found|r1'') (kv db_r1_twice) = [(''found|r1'', ''/b'')]
   \<and> filter (\<lambda>p. fst p = ''last'') (kv db_r1_twice) = [(''last'', ''/b'')]
   \<and> Last db_r1_twice = (''/b'', [])"
proof -
  have inv: "store_inv empty_db" by (simp add: store_inv_def empty_db_def)
  have nofault: "get_fault db_r1_twice (pack last_key []) = None"
    by (simp add: db_r1_twice_def empty_db_def)
  have e: "pack found [''r1''] = ''found|r1''" "pack last_key [] = ''last''"
    by (simp_all add: pack.simps consts_defs)
  from Place_twice_found [OF inv Place_r1 Place_r1_again] nofault inv Place_r1 Place_r1_again
  show ?thesis unfolding e by blast
qed

section \<open>Parents\<close>

lemma parent_scan_keys:
  assumes "k \<in> set (fst (db_Iterate d (parent_range ref)))"
  shows "\<exists>f. k = pack parent [ref, f] \<and> bracketed f"
proof -
  from assms set_db_Iterate_subset [of d "parent_range ref"]
  have "in_range (parent_range ref) k" by blast
  then show ?thesis by (simp only: parent_range_def in_range_fields2)
qed

lemma length_unpack_pack2: "2 < length (unpack (pack t [a, b]))"
  by (simp add: unpack_def pack_concat length_Split)

lemma parents_loop_ok:
  "\<forall>k \<in> set ks. 2 < length (unpack k) \<Longrightarrow>
     parents_loop acc ks = Some (acc @ map (\<lambda>k. unpack k ! 2) ks)"
  by (induction ks arbitrary: acc) (simp_all add: Let_def)

lemma Parents_eq:
  "Parents d ref = Some (parent_refs d ref, snd (db_Iterate d (parent_range ref)))"
proof -
  have "\<forall>k \<in> set (fst (db_Iterate d (parent_range ref))). 2 < length (unpack k)"
    using parent_scan_keys length_unpack_pack2 by metis
  then show ?thesis
    using parents_loop_ok [of "fst (db_Iterate d (parent_range ref))" "[]"]
    by (simp add: Parents_def parent_refs_def)
qed

lemma snd_db_Iterate: "snd (db_Iterate d rng) = map_option snd (iter_fault d rng)"
  by (simp add: db_Iterate_def Let_def split: option.splits prod.splits)

lemma no_parent_edges:
  assumes "\<forall>p. pack parent [ref, p] \<notin> keys d"
  shows "parent_refs d ref = []"
proof -
  have "fst (db_Iterate d (parent_range ref)) = []"
  proof (cases "fst (db_Iterate d (parent_range ref))")
    case Nil
    then show ?thesis .
  next
    case (Cons k ks)
    then have k: "k \<in> set (fst (db_Iterate d (parent_range ref)))" by simp
    then obtain f where "k = pack parent [ref, f]" using parent_scan_keys by blast
    moreover from k have "k \<in> keys d" using set_db_Iterate_subset by blast
    ultimately show ?thesis using assms by blast
  qed
  then show ?thesis by (simp add: parent_refs_def)
qed

text \<open>
  Claim C8.  When the store holds no parent edge of the ref (no key \<^verbatim>\<open>parent|ref|p\<close>) and
  the scan of the store does not fail, StreamAllParentPaths returns nil after sending
  exactly one path, the empty one; one level of calls is enough.
\<close>

theorem leaf_path:
  assumes "\<forall>p. pack parent [ref, p] \<notin> keys d"
    and "iter_fault d (parent_range ref) = None"
  shows "StreamAllParentPaths (Suc n) d ref = Some ([[]], Returned None)"
  using assms
  by (simp add: StreamAllParentPaths_def Parents_eq no_parent_edges snd_db_Iterate)

theorem leaf_path_witness:
  "(\<forall>p. pack parent [''r1'', p] \<notin> keys db_r1) \<and> iter_fault db_r1 (parent_range ''r1'') = None
   \<and> StreamAllParentPaths 1 db_r1 ''r1'' = Some ([[]], Returned None)"
proof -
  have a: "\<forall>p. pack parent [''r1'', p] \<notin> keys db_r1"
    by (simp add: keys_def db_r1_def pack_concat consts_defs)
  have b: "iter_fault db_r1 (parent_range ''r1'') = None"
    by (simp add: db_r1_def empty_db_def)
  from leaf_path [OF a b, of 0] a b show ?thesis by simp
qed

section \<open>Scan failures\<close>

lemma up_iff: "(r, p) \<in> up d \<longleftrightarrow> p \<in> set (parent_refs d r)"
  by (simp add: up_def)

lemma stream_parents_ConsE:
  assumes "stream_parents n d path (p # ps) = Some (out, Returned None)"
  obtains o1 o2 where "streamAllParentPaths n d (path @ [p]) p = Some (o1, Returned None)"
    and "stream_parents n d path ps = Some (o2, Returned None)" and "out = o1 @ o2"
  using assms by (auto split: option.splits prod.splits ending.splits)

lemma streamAllParentPaths_SucE:
  assumes "streamAllParentPaths (Suc n) d path ref = Some (out, Returned None)"
  obtains "iter_fault d (parent_range ref) = None" and "parent_refs d ref = []" and "out = [path]"
  | "iter_fault d (parent_range ref) = None" and "parent_refs d ref \<noteq> []"
    and "stream_parents n d path (parent_refs d ref) = Some (out, Returned None)"
  using assms
  by (auto simp: Parents_eq snd_db_Iterate split: option.splits if_splits)

lemma stream_parents_nil_no_fault:
  assumes IH: "\<forall>path ref out x. streamAllParentPaths n d path ref = Some (out, Returned None) \<longrightarrow>
      (ref, x) \<in> (up d)\<^sup>* \<longrightarrow> iter_fault d (parent_range x) = None"
  shows "stream_parents n d path ps = Some (out, Returned None) \<Longrightarrow> p \<in> set ps \<Longrightarrow>
      (p, x) \<in> (up d)\<^sup>* \<Longrightarrow> iter_fault d (parent_range x) = None"
proof (induction ps arbitrary: out)
  case Nil
  then show ?case by simp
next
  case (Cons q ps)
  from Cons.prems(1) obtain o1 o2 where
    a: "streamAllParentPaths n d (path @ [q]) q = Some (o1, Returned None)"
    and b: "stream_parents n d path ps = Some (o2, Returned None)"
    by (rule stream_parents_ConsE)
  show ?case
  proof (cases "p = q")
    case True
    with IH a Cons.prems(3) show ?thesis by blast
  next
    case False
    with Cons.prems(2) have "p \<in> set ps" by simp
    with Cons.IH [OF b] Cons.prems(3) show ?thesis by simp
  qed
qed

lemma stream_nil_no_fault:
  "streamAllParentPaths n d path ref = Some (out, Returned None) \<Longrightarrow>
     (ref, x) \<in> (up d)\<^sup>* \<Longrightarrow> iter_fault d (parent_range x) = None"
proof (induction n arbitrary: path ref out x)
  case 0
  then show ?case by simp
next
  case (Suc n)
  from Suc.prems(1) show ?case
  proof (cases rule: streamAllParentPaths_SucE)
    case 1
    then have none: "\<And>y. (ref, y) \<notin> up d" by (simp add: up_iff)
    from Suc.prems(2) have "x = ref"
    proof (cases rule: converse_rtranclE)
      case base
      then show ?thesis by simp
    next
      case (step y)
      with none show ?thesis by blast
    qed
    with 1 show ?thesis by simp
  next
    case 2
    from Suc.prems(2) show ?thesis
    proof (cases rule: converse_rtranclE)
      case base
      with 2 show ?thesis by simp
    next
      case (step y)
      then have y: "y \<in> set (parent_refs d ref)" by (simp add: up_iff)
      have ih: "\<forall>path ref out x. streamAllParentPaths n d path ref = Some (out, Returned None) \<longrightarrow>
          (ref, x) \<in> (up d)\<^sup>* \<longrightarrow> iter_fault d (parent_range x) = None"
        using Suc.IH by blast
      show ?thesis by (rule stream_parents_nil_no_fault [OF ih 2(3) y step(2)])
    qed
  qed
qed

lemma Parents_fault:
  "iter_fault d (parent_range ref) = Some (n, e) \<Longrightarrow>
     Parents d ref = Some (parent_refs d ref, Some e)"
  by (simp add: Parents_eq snd_db_Iterate)

lemma Place_scan_fault:
  assumes "iter_fault d (missing_range ref) = Some (n, e)"
    and "write_fault d (place_batch d ref location ct deps) = None"
  shows "Place d ref location ct deps
           = (d\<lparr>kv := apply_batch (kv d) (place_batch d ref location ct deps)\<rparr>, [e], None)"
  using assms by (simp add: Place_def Let_def db_Write_def snd_db_Iterate)

text \<open>
  Claim C5.  An iterator error is returned by Parents, and by StreamAllParentPaths: a
  failing scan of the ref itself is returned at once with nothing sent; a failure inside
  the call for one parent ends the loop over the remaining parents and is returned as it
  is; and a nil result means that no scan of any ref reachable over parent edges failed.
  In Place, a failing deletion scan is printed, the call goes on, and when the write
  succeeds the batch is committed and the call returns nil.
\<close>

theorem scan_failure_handling:
  "(iter_fault d (parent_range ref) = Some (n, e) \<longrightarrow>
      Parents d ref = Some (parent_refs d ref, Some e))
   \<and> (iter_fault d (parent_range ref) = Some (n, e) \<longrightarrow>
      StreamAllParentPaths (Suc fuel) d ref = Some ([], Returned (Some e)))
   \<and> (streamAllParentPaths fuel d (path @ [p]) p = Some (out, Returned (Some e)) \<longrightarrow>
      stream_parents fuel d path (p # ps) = Some (out, Returned (Some e)))
   \<and> (StreamAllParentPaths fuel d ref = Some (out, Returned None) \<longrightarrow>
      (\<forall>x. (ref, x) \<in> (up d)\<^sup>* \<longrightarrow> iter_fault d (parent_range x) = None))
   \<and> (iter_fault d (missing_range ref) = Some (n, e)
        \<and> write_fault d (place_batch d ref location ct deps) = None \<longrightarrow>
      Place d ref location ct deps
        = (d\<lparr>kv := apply_batch (kv d) (place_batch d ref location ct deps)\<rparr>, [e], None))"
proof -
  have 1: "iter_fault d (parent_range ref) = Some (n, e) \<longrightarrow>
      Parents d ref = Some (parent_refs d ref, Some e)"
    by (simp add: Parents_fault)
  have 2: "iter_fault d (parent_range ref) = Some (n, e) \<longrightarrow>
      StreamAllParentPaths (Suc fuel) d ref = Some ([], Returned (Some e))"
    by (simp add: StreamAllParentPaths_def Parents_fault)
  have 3: "streamAllParentPaths fuel d (path @ [p]) p = Some (out, Returned (Some e)) \<longrightarrow>
      stream_parents fuel d path (p # ps) = Some (out, Returned (Some e))"
    by simp
  have 4: "StreamAllParentPaths fuel d ref = Some (out, Returned None) \<longrightarrow>
      (\<forall>x. (ref, x) \<in> (up d)\<^sup>* \<longrightarrow> iter_fault d (parent_range x) = None)"
    unfolding StreamAllParentPaths_def using stream_nil_no_fault by blast
  have 5: "iter_fault d (missing_range ref) = Some (n, e)
        \<and> write_fault d (place_batch d ref location ct deps) = None \<longrightarrow>
      Place d ref location ct deps
        = (d\<lparr>kv := apply_batch (kv d) (place_batch d ref location ct deps)\<rparr>, [e], None)"
    using Place_scan_fault by blast
  from 1 2 3 4 5 show ?thesis by blast
qed

lemmas query_defs =
  Parents_def parents_loop.simps unpack_def Split.simps parent_range_def
  StreamAllParentPaths_def db_Iterate_def in_range_def pack.simps consts_defs Let_def
  empty_db_def

theorem scan_failure_handling_witness:
  "Parents db_chain_bad ''B'' = Some ([], Some (ErrIO 7))
   \<and> StreamAllParentPaths (Suc (Suc 0)) db_chain_bad ''B'' = Some ([], Returned (Some (ErrIO 7)))
   \<and> StreamAllParentPaths (Suc (Suc 0)) db_chain_bad ''C'' = Some ([], Returned (Some (ErrIO 7)))
   \<and> StreamAllParentPaths (Suc (Suc (Suc 0))) db_chain ''C'' = Some ([[''B'', ''A'']], Returned None)
   \<and> iter_fault db_chain (parent_range ''C'') = None
   \<and> Place db_scan_bad ''r2'' ''/b'' [] []
       = (db_scan_bad\<lparr>kv := [(''found|r2'', ''/b''), (''last'', ''/b''), (''missing|r2|r1'', [])]\<rparr>,
          [ErrIO 9], None)"
proof -
  have h1: "iter_fault db_chain_bad (parent_range ''B'') = Some (0, ErrIO 7)"
    by (simp add: db_chain_bad_def)
  have r1: "parent_refs db_chain_bad ''B'' = []"
    by (simp add: parent_refs_def db_chain_bad_def db_chain_def query_defs)
  have h3: "streamAllParentPaths (Suc 0) db_chain_bad ([] @ [''B'']) ''B''
              = Some ([], Returned (Some (ErrIO 7)))"
    by (simp add: db_chain_bad_def db_chain_def query_defs)
  have c3: "StreamAllParentPaths (Suc (Suc 0)) db_chain_bad ''C''
              = stream_parents (Suc 0) db_chain_bad [] [''B'']"
    by (simp add: db_chain_bad_def db_chain_def query_defs)
  have h4: "StreamAllParentPaths (Suc (Suc (Suc 0))) db_chain ''C''
              = Some ([[''B'', ''A'']], Returned None)"
    by (simp add: db_chain_def query_defs)
  have reach: "(''C'', ''C'') \<in> (up db_chain)\<^sup>*" by simp
  have h5: "iter_fault db_scan_bad (missing_range ''r2'') = Some (0, ErrIO 9)
            \<and> write_fault db_scan_bad (place_batch db_scan_bad ''r2'' ''/b'' [] []) = None"
    by (simp add: db_scan_bad_def empty_db_def)
  have b5: "apply_batch (kv db_scan_bad) (place_batch db_scan_bad ''r2'' ''/b'' [] [])
              = [(''found|r2'', ''/b''), (''last'', ''/b''), (''missing|r2|r1'', [])]"
    by (simp add: db_scan_bad_def eval_defs)
  note t1 = scan_failure_handling [where d = db_chain_bad and ref = "''B''" and n = 0
      and e = "ErrIO 7" and fuel = "Suc 0" and path = "[]" and p = "''B''" and out = "[]"
      and ps = "[]"]
  note t4 = scan_failure_handling [where d = db_chain and ref = "''C''" and fuel = "Suc (Suc (Suc 0))"
      and out = "[[''B'', ''A'']]"]
  note t5 = scan_failure_handling [where d = db_scan_bad and ref = "''r2''" and n = 0
      and e = "ErrIO 9" and location = "''/b''" and ct = "[]" and deps = "[]"]
  from t1 h1 r1 have w1: "Parents db_chain_bad ''B'' = Some ([], Some (ErrIO 7))" by simp
  from t1 h1 have w2: "StreamAllParentPaths (Suc (Suc 0)) db_chain_bad ''B''
      = Some ([], Returned (Some (ErrIO 7)))" by blast
  from t1 h3 have "stream_parents (Suc 0) db_chain_bad [] [''B'']
      = Some ([], Returned (Some (ErrIO 7)))" by blast
  with c3 have w3: "StreamAllParentPaths (Suc (Suc 0)) db_chain_bad ''C''
      = Some ([], Returned (Some (ErrIO 7)))" by simp
  from t4 h4 reach have w4: "iter_fault db_chain (parent_range ''C'') = None" by blast
  from t5 h5 have "Place db_scan_bad ''r2'' ''/b'' [] []
      = (db_scan_bad\<lparr>kv := apply_batch (kv db_scan_bad) (place_batch db_scan_bad ''r2'' ''/b'' [] [])\<rparr>,
         [ErrIO 9], None)" by blast
  with b5 have w5: "Place db_scan_bad ''r2'' ''/b'' [] []
       = (db_scan_bad\<lparr>kv := [(''found|r2'', ''/b''), (''last'', ''/b''), (''missing|r2|r1'', [])]\<rparr>,
          [ErrIO 9], None)" by simp
  from w1 w2 w3 h4 w4 w5 show ?thesis by blast
qed

section \<open>Termination of the upward traversal\<close>

lemma stream_parents_mono_step:
  assumes IH: "\<forall>path ref r. streamAllParentPaths n d path ref = Some r \<longrightarrow>
                 streamAllParentPaths m d path ref = Some r"
  shows "stream_parents n d path ps = Some r \<Longrightarrow> stream_parents m d path ps = Some r"
proof (induction ps arbitrary: r)
  case Nil
  then show ?case by simp
next
  case (Cons p ps)
  from Cons.prems obtain out e where a: "streamAllParentPaths n d (path @ [p]) p = Some (out, e)"
    by (auto split: option.splits)
  with IH have a': "streamAllParentPaths m d (path @ [p]) p = Some (out, e)" by blast
  show ?case
  proof (cases "e = Returned None")
    case True
    with Cons.prems a obtain r' where b: "stream_parents n d path ps = Some r'"
      by (auto split: option.splits)
    with Cons.IH have "stream_parents m d path ps = Some r'" by blast
    with Cons.prems a a' b True show ?thesis by simp
  next
    case False
    with Cons.prems a a' show ?thesis
      by (cases e) (auto split: option.splits)
  qed
qed

lemma streamAllParentPaths_mono:
  "streamAllParentPaths n d path ref = Some r \<Longrightarrow> n \<le> m \<Longrightarrow>
     streamAllParentPaths m d path ref = Some r"
proof (induction n arbitrary: m path ref r)
  case 0
  then show ?case by simp
next
  case (Suc n)
  from Suc.prems(2) obtain m' where m: "m = Suc m'" and le: "n \<le> m'"
    by (cases m) simp_all
  have ih: "\<forall>path ref r. streamAllParentPaths n d path ref = Some r \<longrightarrow>
                 streamAllParentPaths m' d path ref = Some r"
    using Suc.IH le by blast
  note sp = stream_parents_mono_step [OF ih]
  show ?case
  proof (cases "snd (db_Iterate d (parent_range ref))")
    case (Some e)
    with Suc.prems(1) show ?thesis unfolding m by (simp add: Parents_eq)
  next
    case None
    show ?thesis
    proof (cases "parent_refs d ref = []")
      case True
      with None Suc.prems(1) show ?thesis unfolding m by (simp add: Parents_eq)
    next
      case False
      with None Suc.prems(1) have "stream_parents n d path (parent_refs d ref) = Some r"
        by (simp add: Parents_eq)
      then have "stream_parents m' d path (parent_refs d ref) = Some r" by (rule sp)
      with None False show ?thesis unfolding m by (simp add: Parents_eq)
    qed
  qed
qed

lemma stream_parents_mono:
  assumes "stream_parents n d path ps = Some r" and "n \<le> m"
  shows "stream_parents m d path ps = Some r"
proof -
  have "\<forall>path ref r. streamAllParentPaths n d path ref = Some r \<longrightarrow>
                 streamAllParentPaths m d path ref = Some r"
    using streamAllParentPaths_mono [OF _ assms(2)] by blast
  from stream_parents_mono_step [OF this assms(1)] show ?thesis .
qed

lemma stream_parents_returns:
  assumes "\<forall>p \<in> set ps. \<exists>n. \<forall>path. streamAllParentPaths n d path p \<noteq> None"
  shows "\<exists>n. \<forall>path. stream_parents n d path ps \<noteq> None"
  using assms
proof (induction ps)
  case Nil
  then show ?case by simp
next
  case (Cons p ps)
  then obtain n1 n2 where n1: "\<forall>path. streamAllParentPaths n1 d path p \<noteq> None"
    and n2: "\<forall>path. stream_parents n2 d path ps \<noteq> None"
    by auto
  have "\<forall>path. stream_parents (max n1 n2) d path (p # ps) \<noteq> None"
  proof
    fix path
    from n1 obtain r1 where "streamAllParentPaths n1 d (path @ [p]) p = Some r1" by blast
    then have a: "streamAllParentPaths (max n1 n2) d (path @ [p]) p = Some r1"
      by (rule streamAllParentPaths_mono) simp
    from n2 obtain r2 where "stream_parents n2 d path ps = Some r2" by blast
    then have b: "stream_parents (max n1 n2) d path ps = Some r2"
      by (rule stream_parents_mono) simp
    from a b show "stream_parents (max n1 n2) d path (p # ps) \<noteq> None"
      by (auto split: option.splits prod.splits ending.splits)
  qed
  then show ?case by blast
qed

lemma finite_strings_le: "finite {r :: string. length r \<le> n}"
  using finite_lists_length_le [of "UNIV :: char set" n] by simp

lemma length_pack2: "length r \<le> length (pack t [r, f])"
  by (simp add: pack_concat)

lemma finite_up: "finite (up d)"
proof -
  have "up d \<subseteq> (\<Union>k \<in> keys d. {r :: string. length r \<le> length k}) \<times> ((\<lambda>k. unpack k ! 2) ` keys d)"
  proof
    fix e assume "e \<in> up d"
    then obtain r p where e: "e = (r, p)" and "p \<in> set (parent_refs d r)"
      by (auto simp: up_def)
    then obtain k where k: "k \<in> set (fst (db_Iterate d (parent_range r)))" and p: "p = unpack k ! 2"
      by (auto simp: parent_refs_def)
    from k have kd: "k \<in> keys d" using set_db_Iterate_subset by blast
    from k obtain f where "k = pack parent [r, f]" using parent_scan_keys by blast
    then have "length r \<le> length k" by (simp add: length_pack2)
    with kd p e show "e \<in> (\<Union>k \<in> keys d. {r :: string. length r \<le> length k}) \<times> ((\<lambda>k. unpack k ! 2) ` keys d)"
      by blast
  qed
  moreover have "finite ((\<Union>k \<in> keys d. {r :: string. length r \<le> length k}) \<times> ((\<lambda>k. unpack k ! 2) ` keys d))"
  proof (rule finite_cartesian_product)
    have fk: "finite (keys d)" unfolding keys_def by (rule finite_set)
    then show "finite (\<Union>k \<in> keys d. {r :: string. length r \<le> length k})"
      by (rule finite_UN_I) (rule finite_strings_le)
    from fk show "finite ((\<lambda>k. unpack k ! 2) ` keys d)" by (rule finite_imageI)
  qed
  ultimately show ?thesis by (rule finite_subset)
qed

lemma traversal_returns:
  assumes acyc: "\<forall>x. (ref, x) \<in> (up d)\<^sup>* \<longrightarrow> (x, x) \<notin> (up d)\<^sup>+"
  shows "\<exists>n. \<forall>path. streamAllParentPaths n d path ref \<noteq> None"
proof -
  define R where "R = {(a, b). (a, b) \<in> up d \<and> (ref, a) \<in> (up d)\<^sup>*}"
  have sub: "R \<subseteq> up d" by (auto simp: R_def)
  then have fin: "finite R" using finite_up finite_subset by blast
  have "acyclic R"
    unfolding acyclic_def
  proof (intro allI notI)
    fix x assume xx: "(x, x) \<in> R\<^sup>+"
    then have "(x, x) \<in> (up d)\<^sup>+" using sub trancl_mono by blast
    moreover from tranclD [OF xx] obtain z where "(x, z) \<in> R" by blast
    then have "(ref, x) \<in> (up d)\<^sup>*" by (simp add: R_def)
    ultimately show False using acyc by blast
  qed
  with fin have wf: "wf (R\<inverse>)" by (rule finite_acyclic_wf_converse)
  have "(ref, x) \<in> (up d)\<^sup>* \<longrightarrow> (\<exists>n. \<forall>path. streamAllParentPaths n d path x \<noteq> None)" for x
  proof (induction x rule: wf_induct_rule [OF wf])
    case (1 x)
    show ?case
    proof
      assume reach: "(ref, x) \<in> (up d)\<^sup>*"
      have "\<forall>p \<in> set (parent_refs d x). \<exists>n. \<forall>path. streamAllParentPaths n d path p \<noteq> None"
      proof
        fix p assume "p \<in> set (parent_refs d x)"
        then have e: "(x, p) \<in> up d" by (simp add: up_iff)
        with reach have "(p, x) \<in> R\<inverse>" by (simp add: R_def)
        moreover from reach e have "(ref, p) \<in> (up d)\<^sup>*" by (rule rtrancl_into_rtrancl)
        ultimately show "\<exists>n. \<forall>path. streamAllParentPaths n d path p \<noteq> None"
          using "1.IH" by blast
      qed
      then obtain n where n: "\<forall>path. stream_parents n d path (parent_refs d x) \<noteq> None"
        using stream_parents_returns by blast
      have "\<forall>path. streamAllParentPaths (Suc n) d path x \<noteq> None"
        using n by (auto simp: Parents_eq split: option.splits)
      then show "\<exists>n. \<forall>path. streamAllParentPaths n d path x \<noteq> None" by blast
    qed
  qed
  then show ?thesis by blast
qed

text \<open>
  Claim C6.  When no ref reachable from the given ref over parent edges lies on a cycle of
  parent edges (the edges of a store are finitely many), StreamAllParentPaths returns:
  there is a depth of calls from which on the call ends, with one and the same finite
  sequence of paths sent and the same result.  The function has no guard against cycles;
  the hypothesis is what makes it return.
\<close>

theorem acyclic_traversal_terminates:
  assumes "\<forall>x. (ref, x) \<in> (up d)\<^sup>* \<longrightarrow> (x, x) \<notin> (up d)\<^sup>+"
  shows "\<exists>n out e. \<forall>m \<ge> n. StreamAllParentPaths m d ref = Some (out, e)"
proof -
  from traversal_returns [OF assms] obtain n r where
    "streamAllParentPaths n d [] ref = Some r" by blast
  then have "\<And>m. n \<le> m \<Longrightarrow> streamAllParentPaths m d [] ref = Some r"
    by (rule streamAllParentPaths_mono)
  then have "\<forall>m \<ge> n. StreamAllParentPaths m d ref = Some (fst r, snd r)"
    unfolding StreamAllParentPaths_def by simp
  then show ?thesis by blast
qed

lemma in_parent_range_iff:
  "in_range (parent_range r) k \<longleftrightarrow> (\<exists>f. k = pack parent [r, f] \<and> bracketed f)"
  by (simp only: parent_range_def in_range_fields2)

lemma up_db_chain: "up db_chain = {(''C'', ''B''), (''B'', ''A'')}"
proof -
  have a: "in_range (parent_range r) ''parent|B|A'' \<longleftrightarrow> r = ''B''" for r
    unfolding in_parent_range_iff
    by (auto simp: pack_concat consts_defs bracketed_def Cons_eq_append_conv)
  have b: "in_range (parent_range r) ''parent|C|B'' \<longleftrightarrow> r = ''C''" for r
    unfolding in_parent_range_iff
    by (auto simp: pack_concat consts_defs bracketed_def Cons_eq_append_conv)
  have c: "\<not> in_range (parent_range r) ''found|A''" "\<not> in_range (parent_range r) ''found|B''"
    "\<not> in_range (parent_range r) ''found|C''" "\<not> in_range (parent_range r) ''last''" for r
    unfolding in_parent_range_iff
    by (auto simp: pack_concat consts_defs)
  have "parent_refs db_chain r = (if r = ''B'' then [''A''] else if r = ''C'' then [''B''] else [])" for r
    by (simp add: parent_refs_def db_Iterate_def db_chain_def empty_db_def a b c unpack_def)
  then show ?thesis by (auto simp: up_def split: if_splits)
qed

lemma db_chain_acyclic: "(x, x) \<notin> (up db_chain)\<^sup>+"
proof
  define f :: "string \<Rightarrow> nat" where
    "f = (\<lambda>s. if s = ''C'' then 0 else if s = ''B'' then 1 else 2)"
  have edge: "f a < f b" if "(a, b) \<in> up db_chain" for a b
    using that by (auto simp: up_db_chain f_def)
  have "f a < f b" if "(a, b) \<in> (up db_chain)\<^sup>+" for a b
    using that
  proof (induction rule: trancl_induct)
    case (base y)
    then show ?case by (rule edge)
  next
    case (step y z)
    from step.IH edge [OF step.hyps(2)] show ?case by simp
  qed
  moreover assume "(x, x) \<in> (up db_chain)\<^sup>+"
  ultimately have "f x < f x" by blast
  then show False by simp
qed

theorem acyclic_traversal_terminates_witness:
  "(\<forall>x. (x, x) \<notin> (up db_chain)\<^sup>+)
   \<and> (\<exists>n. \<forall>k. StreamAllParentPaths (n + k) db_chain ''C''
                 = Some ([[''B'', ''A'']], Returned None))"
proof -
  have h: "\<forall>x. (''C'', x) \<in> (up db_chain)\<^sup>* \<longrightarrow> (x, x) \<notin> (up db_chain)\<^sup>+"
    using db_chain_acyclic by blast
  from acyclic_traversal_terminates [OF h] obtain n out e where
    stable: "\<forall>m \<ge> n. StreamAllParentPaths m db_chain ''C'' = Some (out, e)" by blast
  have "streamAllParentPaths (Suc (Suc (Suc 0))) db_chain [] ''C''
          = Some ([[''B'', ''A'']], Returned None)"
    by (simp add: db_chain_def query_defs)
  then have "streamAllParentPaths (n + 3) db_chain [] ''C'' = Some ([[''B'', ''A'']], Returned None)"
    by (rule streamAllParentPaths_mono) simp
  moreover from stable have "StreamAllParentPaths (n + 3) db_chain ''C'' = Some (out, e)" by simp
  ultimately have "(out, e) = ([[''B'', ''A'']], Returned None)"
    by (simp add: StreamAllParentPaths_def)
  with stable have "\<forall>k. StreamAllParentPaths (n + k) db_chain ''C''
                       = Some ([[''B'', ''A'']], Returned None)" by simp
  with db_chain_acyclic show ?thesis by blast
qed

section \<open>Stores without failures, and sequences of calls\<close>

lemma key_tag_pack: "bar_free t \<Longrightarrow> key_tag (pack t fs) = t"
  by (simp add: key_tag_def unpack_pack_tag)

lemma key_tag_simps:
  "key_tag (pack found fs) = found" "key_tag (pack missing fs) = missing"
  "key_tag (pack parent fs) = parent" "key_tag (pack last_key fs) = last_key"
  "key_tag (pack camliType fs) = camliType" "key_tag (pack mimeType fs) = mimeType"
  "key_tag last_key = last_key"
  using key_tag_pack [OF bar_free_tags(4), of "[]"]
  by (simp_all add: key_tag_pack bar_free_tags)

lemma tag_neqs:
  "found \<noteq> missing" "parent \<noteq> missing" "last_key \<noteq> missing" "camliType \<noteq> missing"
  "mimeType \<noteq> missing" "found \<noteq> parent" "found \<noteq> last_key" "found \<noteq> camliType"
  "found \<noteq> mimeType" "parent \<noteq> last_key" "parent \<noteq> camliType" "parent \<noteq> mimeType"
  "last_key \<noteq> camliType" "last_key \<noteq> mimeType" "camliType \<noteq> mimeType"
  by (simp_all add: consts_defs)

lemma exec_Place: "exec d (PlaceCall ref location ct deps)
    = (fst (Place d ref location ct deps), snd (snd (Place d ref location ct deps)))"
  by (simp add: split_beta)

lemma db_Iterate_healthy:
  "healthy d \<Longrightarrow> db_Iterate d rng = (filter (in_range rng) (map fst (kv d)), None)"
  by (simp add: healthy_def db_Iterate_no_fault)

lemma scan_set_healthy:
  "healthy d \<Longrightarrow> set (fst (db_Iterate d rng)) = {k \<in> keys d. in_range rng k}"
  by (auto simp: db_Iterate_healthy keys_def)

lemma Place_healthy:
  "healthy d \<Longrightarrow> Place d ref location ct deps
     = (d\<lparr>kv := apply_batch (kv d) (place_batch d ref location ct deps)\<rparr>, [], None)"
  by (simp add: Place_def Let_def db_Write_def db_Iterate_healthy) (simp add: healthy_def)

lemma PlaceMIME_healthy:
  "healthy d \<Longrightarrow> PlaceMIME d ref mime
     = (d\<lparr>kv := kv_put (pack mimeType [mime, ref]) [] (kv d)\<rparr>, None)"
  by (simp add: PlaceMIME_def db_Write_def apply_batch_def healthy_def)

lemma exec_healthy: "healthy d \<Longrightarrow> healthy (fst (exec d c))"
  by (cases c) (simp_all add: Place_healthy PlaceMIME_healthy healthy_def)

lemma exec_store_inv: "healthy d \<Longrightarrow> store_inv d \<Longrightarrow> store_inv (fst (exec d c))"
  by (cases c)
     (simp_all add: Place_healthy PlaceMIME_healthy store_inv_def sorted_apply_batch sorted_kv_put)

lemma exec_ok: "healthy d \<Longrightarrow> snd (exec d c) = None"
  by (cases c) (simp_all add: Place_healthy PlaceMIME_healthy)

lemma run_healthy: "healthy d \<Longrightarrow> healthy (run d cs)"
  by (induction cs arbitrary: d) (simp_all add: exec_healthy)

lemma run_store_inv: "healthy d \<Longrightarrow> store_inv d \<Longrightarrow> store_inv (run d cs)"
  by (induction cs arbitrary: d) (simp_all add: exec_healthy exec_store_inv)

lemma run_all_ok: "healthy d \<Longrightarrow> all_ok d cs"
  by (induction cs arbitrary: d) (simp_all add: exec_healthy exec_ok)

lemma run_append: "run d (cs @ cs') = run (run d cs) cs'"
  by (induction cs arbitrary: d) simp_all

lemma place_deps_keys:
  "op_key ` set (place_deps d ref deps) =
     (\<lambda>dep. pack parent [dep, ref]) ` set deps
     \<union> (\<lambda>dep. pack missing [dep, ref]) ` {dep \<in> set deps. \<not> fst (db_Has d (pack found [dep]))}"
  by (induction deps) auto

lemma keys_PlaceMIME:
  "healthy d \<Longrightarrow> keys (fst (PlaceMIME d ref mime)) = insert (pack mimeType [mime, ref]) (keys d)"
  by (simp add: PlaceMIME_healthy keys_def keys_kv_put del: set_map)

lemma keys_Place:
  assumes "healthy d"
  shows "keys (fst (Place d ref location ct deps)) =
     (keys d \<union> set (static_keys (PlaceCall ref location ct deps))
        \<union> (\<lambda>dep. pack missing [dep, ref]) ` {dep \<in> set deps. pack found [dep] \<notin> keys d})
     - {k \<in> keys d. in_range (missing_range ref) k}"
proof -
  have has: "fst (db_Has d k) \<longleftrightarrow> k \<in> keys d" for k
    using assms by (simp add: db_Has_healthy healthy_def)
  have "op_key ` set (place_puts d ref location ct deps) =
      {pack found [ref], pack last_key []}
        \<union> (if ct \<noteq> [] then {pack camliType [ct, ref]} else {})
        \<union> op_key ` set (place_deps d ref deps)"
    by (simp add: place_puts_def image_Un)
  also have "\<dots> = set (static_keys (PlaceCall ref location ct deps))
        \<union> (\<lambda>dep. pack missing [dep, ref]) ` {dep \<in> set deps. pack found [dep] \<notin> keys d}"
    unfolding place_deps_keys has by (simp add: Un_assoc)
  finally have "op_key ` set (place_puts d ref location ct deps) =
      set (static_keys (PlaceCall ref location ct deps))
        \<union> (\<lambda>dep. pack missing [dep, ref]) ` {dep \<in> set deps. pack found [dep] \<notin> keys d}" .
  with Place_keys [OF Place_healthy [OF assms], of ref location ct deps]
    scan_set_healthy [OF assms, of "missing_range ref"]
  show ?thesis by (simp add: Place_healthy [OF assms] Un_assoc)
qed

lemma missing_range_tag:
  "in_range (missing_range ref) k \<Longrightarrow> key_tag k = missing"
  by (auto simp only: missing_range_def in_range_fields2 key_tag_pack [OF bar_free_tags(2)])

lemma static_keys_tag: "k \<in> set (static_keys c) \<Longrightarrow> key_tag k \<noteq> missing"
  by (cases c) (auto simp: key_tag_simps tag_neqs split: if_splits)

lemma tagged_keys_exec:
  assumes "healthy d" and "t \<noteq> missing"
  shows "{k \<in> keys (fst (exec d c)). key_tag k = t}
           = {k \<in> keys d. key_tag k = t} \<union> {k \<in> set (static_keys c). key_tag k = t}"
proof (cases c)
  case (PlaceCall ref location ct deps)
  have m: "key_tag (pack missing [dep, ref]) \<noteq> t" for dep
    using assms(2) by (simp add: key_tag_simps)
  have "{k \<in> keys (fst (Place d ref location ct deps)). key_tag k = t}
           = {k \<in> keys d. key_tag k = t}
             \<union> {k \<in> set (static_keys (PlaceCall ref location ct deps)). key_tag k = t}"
    unfolding keys_Place [OF assms(1)] using missing_range_tag assms(2) m by blast
  then show ?thesis
    unfolding PlaceCall exec_Place by simp
next
  case (PlaceMIMECall ref mime)
  then show ?thesis by (auto simp: keys_PlaceMIME [OF assms(1)])
qed

lemma tagged_keys_run:
  assumes "t \<noteq> missing"
  shows "healthy d \<Longrightarrow> {k \<in> keys (run d cs). key_tag k = t}
           = {k \<in> keys d. key_tag k = t} \<union> {k \<in> set (concat (map static_keys cs)). key_tag k = t}"
proof (induction cs arbitrary: d)
  case Nil
  then show ?case by simp
next
  case (Cons c cs)
  have "{k \<in> keys (run d (c # cs)). key_tag k = t}
          = {k \<in> keys (fst (exec d c)). key_tag k = t}
            \<union> {k \<in> set (concat (map static_keys cs)). key_tag k = t}"
    using Cons.IH [OF exec_healthy [OF Cons.prems]] by simp
  also have "\<dots> = {k \<in> keys d. key_tag k = t} \<union> {k \<in> set (static_keys c). key_tag k = t}
            \<union> {k \<in> set (concat (map static_keys cs)). key_tag k = t}"
    by (simp only: tagged_keys_exec [OF Cons.prems assms])
  also have "\<dots> = {k \<in> keys d. key_tag k = t}
            \<union> {k \<in> set (concat (map static_keys (c # cs))). key_tag k = t}"
    by auto
  finally show ?case .
qed

section \<open>Parent reconstruction\<close>

lemmas tag_neqs_sym = tag_neqs [symmetric]

lemma bar_split_unique:
  "bar_free a \<Longrightarrow> bar_free a' \<Longrightarrow> a @ CHR ''|'' # b = a' @ CHR ''|'' # b' \<Longrightarrow> a = a' \<and> b = b'"
proof (induction a arbitrary: a')
  case Nil
  then show ?case by (cases a') (auto simp: bar_free_def)
next
  case (Cons x a)
  then show ?case by (cases a') (auto simp: bar_free_def)
qed

lemma pack2_inject:
  "bar_free a \<Longrightarrow> bar_free a' \<Longrightarrow> pack t [a, b] = pack t [a', b'] \<longleftrightarrow> a = a' \<and> b = b'"
  using bar_split_unique [of a a' b b'] by (auto simp: pack_concat)

lemma unpack_pack2:
  "bar_free t \<Longrightarrow> bar_free a \<Longrightarrow> unpack (pack t [a, b]) = t # a # Split b"
  by (simp add: unpack_def pack_concat Split_append_bar)

lemma parent_range_tag: "in_range (parent_range ref) k \<Longrightarrow> key_tag k = parent"
  by (auto simp only: parent_range_def in_range_fields2 key_tag_simps)

lemma scan_sorted:
  "store_inv d \<Longrightarrow> sorted_wrt (<) (fst (db_Iterate d rng))"
  by (auto simp: store_inv_def db_Iterate_def Let_def sorted_wrt_filter sorted_wrt_take
      split: option.splits)

lemma scan_singleton:
  assumes "healthy d" "store_inv d" "{k \<in> keys d. in_range rng k} = {x}"
  shows "fst (db_Iterate d rng) = [x]"
proof -
  have "set (fst (db_Iterate d rng)) = set [x]"
    using scan_set_healthy [OF assms(1), of rng] assms(3) by simp
  moreover have "sorted_wrt (<) [x]" by simp
  ultimately show ?thesis using scan_sorted [OF assms(2), of rng] strict_sorted_unique by blast
qed

lemma scan_empty:
  assumes "healthy d" "{k \<in> keys d. in_range rng k} = {}"
  shows "fst (db_Iterate d rng) = []"
  using scan_set_healthy [OF assms(1), of rng] assms(2) by simp

lemma parent_scan_set:
  assumes "healthy d"
  shows "{k \<in> keys d. in_range (parent_range r) k}
       = {k \<in> {k \<in> keys d. key_tag k = parent}. \<exists>f. k = pack parent [r, f] \<and> bracketed f}"
  using parent_range_tag by (auto simp: in_parent_range_iff)

lemma healthy_empty_db: "healthy empty_db" "store_inv empty_db" "keys empty_db = {}"
  by (simp_all add: healthy_def store_inv_def keys_def empty_db_def)

lemma Parents_healthy:
  "healthy d \<Longrightarrow> Parents d ref = Some (parent_refs d ref, None)"
  by (simp add: Parents_eq db_Iterate_healthy)

text \<open>
  Claim C4, as amended.  Let A, B, C be three different refs, each non-empty, without a bar
  and not beginning with the byte 0xFF.  After the calls Place(A, .., [B]), Place(B, .., [C])
  and Place(C, .., []) on a fresh index, in any order, Parents(C) returns [B], Parents(B)
  returns [A], and StreamAllParentPaths(C) sends the one path [B, A] and returns nil, at
  every depth of calls from 3 on.
\<close>

theorem chain_parents:
  assumes "valid_ref A" "valid_ref B" "valid_ref C" "distinct [A, B, C]"
    and "set cs = {PlaceCall A la ta [B], PlaceCall B lb tb [C], PlaceCall C lc tc []}"
  shows "Parents (run empty_db cs) C = Some ([B], None)
    \<and> Parents (run empty_db cs) B = Some ([A], None)
    \<and> StreamAllParentPaths (n + 3) (run empty_db cs) C = Some ([[B, A]], Returned None)"
proof -
  let ?d = "run empty_db cs"
  have bf: "bar_free A" "bar_free B" "bar_free C" and br: "bracketed A" "bracketed B" "bracketed C"
    using assms(1-3) by (simp_all add: valid_ref_def)
  have h: "healthy ?d" and inv: "store_inv ?d"
    by (simp_all add: run_healthy run_store_inv healthy_empty_db)
  have "set (concat (map static_keys cs)) = (\<Union>c \<in> set cs. set (static_keys c))" by simp
  then have "{k \<in> set (concat (map static_keys cs)). key_tag k = parent}
      = {pack parent [B, A], pack parent [C, B]}"
    unfolding assms(5) by (auto simp: key_tag_simps tag_neqs tag_neqs_sym)
  then have pk: "{k \<in> keys ?d. key_tag k = parent} = {pack parent [B, A], pack parent [C, B]}"
    using tagged_keys_run [OF tag_neqs(2) healthy_empty_db(1), of cs]
    by (simp add: healthy_empty_db)
  have sC: "{k \<in> keys ?d. in_range (parent_range C) k} = {pack parent [C, B]}"
    unfolding parent_scan_set [OF h] pk using bf br assms(4) by (auto simp: pack2_inject)
  have sB: "{k \<in> keys ?d. in_range (parent_range B) k} = {pack parent [B, A]}"
    unfolding parent_scan_set [OF h] pk using bf br assms(4) by (auto simp: pack2_inject)
  have sA: "{k \<in> keys ?d. in_range (parent_range A) k} = {}"
    unfolding parent_scan_set [OF h] pk using bf br assms(4) by (auto simp: pack2_inject)
  have pC: "parent_refs ?d C = [B]"
    using scan_singleton [OF h inv sC] bf bar_free_tags(3)
    by (simp add: parent_refs_def unpack_pack2 Split_bar_free)
  have pB: "parent_refs ?d B = [A]"
    using scan_singleton [OF h inv sB] bf bar_free_tags(3)
    by (simp add: parent_refs_def unpack_pack2 Split_bar_free)
  have pA: "parent_refs ?d A = []"
    using scan_empty [OF h sA] by (simp add: parent_refs_def)
  have n3: "n + 3 = Suc (Suc (Suc n))" by simp
  have "StreamAllParentPaths (n + 3) ?d C = Some ([[B, A]], Returned None)"
    unfolding n3 StreamAllParentPaths_def
    by (simp add: Parents_healthy [OF h] pA pB pC)
  with pC pB show ?thesis by (simp add: Parents_healthy [OF h])
qed

theorem chain_parents_witness:
  "valid_ref ''A'' \<and> valid_ref ''B'' \<and> valid_ref ''C'' \<and> distinct [''A'', ''B'', ''C'']
   \<and> Parents (run empty_db [PlaceCall ''C'' ''/c'' [] [], PlaceCall ''B'' ''/b'' [] [''C''],
                              PlaceCall ''A'' ''/a'' [] [''B'']]) ''C'' = Some ([''B''], None)
   \<and> Parents (run empty_db [PlaceCall ''C'' ''/c'' [] [], PlaceCall ''B'' ''/b'' [] [''C''],
                              PlaceCall ''A'' ''/a'' [] [''B'']]) ''B'' = Some ([''A''], None)
   \<and> StreamAllParentPaths 3 (run empty_db [PlaceCall ''C'' ''/c'' [] [], PlaceCall ''B'' ''/b'' [] [''C''],
                              PlaceCall ''A'' ''/a'' [] [''B'']]) ''C'' = Some ([[''B'', ''A'']], Returned None)
   \<and> StreamAllParentPaths 3 (run empty_db [PlaceCall ''A'' ''/a'' [] [''B''], PlaceCall ''B'' ''/b'' [] [''C''],
                              PlaceCall ''C'' ''/c'' [] []]) ''C'' = Some ([[''B'', ''A'']], Returned None)"
proof -
  have v: "valid_ref ''A''" "valid_ref ''B''" "valid_ref ''C''"
    by (simp_all add: valid_ref_def bar_free_def bracketed_def)
  have dist: "distinct [''A'', ''B'', ''C'']" by simp
  have s1: "set [PlaceCall ''C'' ''/c'' [] [], PlaceCall ''B'' ''/b'' [] [''C''],
                 PlaceCall ''A'' ''/a'' [] [''B'']]
      = {PlaceCall ''A'' ''/a'' [] [''B''], PlaceCall ''B'' ''/b'' [] [''C''], PlaceCall ''C'' ''/c'' [] []}"
    by auto
  have s2: "set [PlaceCall ''A'' ''/a'' [] [''B''], PlaceCall ''B'' ''/b'' [] [''C''],
                 PlaceCall ''C'' ''/c'' [] []]
      = {PlaceCall ''A'' ''/a'' [] [''B''], PlaceCall ''B'' ''/b'' [] [''C''], PlaceCall ''C'' ''/c'' [] []}"
    by auto
  from chain_parents [OF v dist s1, of 0] chain_parents [OF v dist s2, of 0] v dist
  show ?thesis by simp
qed

lemmas run_defs = run.simps exec.simps PlaceMIME_def eval_defs

theorem chain_parents_counterexample:
  "Parents (run empty_db [PlaceCall ''C'' ''/c'' '''' [], PlaceCall ''B'' ''/b'' '''' [''C''],
                          PlaceCall '''' ''/a'' '''' [''B'']]) ''B'' = Some ([], None)
   \<and> Parents (run empty_db [PlaceCall ''C'' ''/c'' '''' [], PlaceCall ''B'' ''/b'' '''' [''C''],
                          PlaceCall '''' ''/a'' '''' [''B'']]) ''B'' \<noteq> Some ([''''], None)
   \<and> StreamAllParentPaths 3 (run empty_db [PlaceCall ''C'' ''/c'' '''' [], PlaceCall ''B'' ''/b'' '''' [''C''],
                          PlaceCall '''' ''/a'' '''' [''B'']]) ''C'' = Some ([[''B'']], Returned None)
   \<and> StreamAllParentPaths 3 (run empty_db [PlaceCall ''C'' ''/c'' '''' [], PlaceCall ''B'' ''/b'' '''' [''C''],
                          PlaceCall '''' ''/a'' '''' [''B'']]) ''C'' \<noteq> Some ([[''B'', '''']], Returned None)"
proof -
  have "kv (run empty_db [PlaceCall ''C'' ''/c'' '''' [], PlaceCall ''B'' ''/b'' '''' [''C''],
                          PlaceCall '''' ''/a'' '''' [''B'']])
      = [(''found|'', ''/a''), (''found|B'', ''/b''), (''found|C'', ''/c''), (''last'', ''/a''),
         (''parent|B|'', []), (''parent|C|B'', [])]
    \<and> iter_fault (run empty_db [PlaceCall ''C'' ''/c'' '''' [], PlaceCall ''B'' ''/b'' '''' [''C''],
                          PlaceCall '''' ''/a'' '''' [''B'']]) = (\<lambda>_. None)"
    by (simp add: run_defs)
  then show ?thesis
    by (simp add: Parents_def parents_loop.simps unpack_def parent_range_def
      StreamAllParentPaths_def db_Iterate_def in_range_def pack.simps consts_defs Let_def
      numeral_3_eq_3)
qed

section \<open>Missing records\<close>

lemma in_all_missing_iff:
  "in_range all_missing k \<longleftrightarrow> (\<exists>f. k = pack missing [f] \<and> bracketed f)"
  by (simp only: all_missing_def in_range_fields1)

lemma in_missing_range_iff:
  "in_range (missing_range r) k \<longleftrightarrow> (\<exists>f. k = pack missing [r, f] \<and> bracketed f)"
  by (simp only: missing_range_def in_range_fields2)

lemma all_missing_tag: "in_range all_missing k \<Longrightarrow> key_tag k = missing"
  by (auto simp only: in_all_missing_iff key_tag_simps)

lemma stream_keys_ok:
  "\<forall>k \<in> set ks. n < length (unpack k) \<Longrightarrow> stream_keys n ks = (map (\<lambda>k. unpack k ! n) ks, False)"
  by (induction ks) (simp_all add: Let_def)

lemma length_unpack_pack1: "1 < length (unpack (pack t [a]))"
  by (simp add: unpack_def pack_concat length_Split)

lemma Missing_healthy:
  assumes "healthy d"
  shows "Missing d = (map (\<lambda>k. unpack k ! 1) (filter (in_range all_missing) (map fst (kv d))), False)"
proof -
  have "\<forall>k \<in> set (filter (in_range all_missing) (map fst (kv d))). 1 < length (unpack k)"
    using length_unpack_pack1 by (auto simp: in_all_missing_iff)
  then show ?thesis
    using stream_keys_ok [of "filter (in_range all_missing) (map fst (kv d))" 1]
    by (simp add: Missing_def streamBlobs_def db_Iterate_healthy [OF assms] all_missing_def)
qed

lemma count_list_map_filter: "count_list (map g xs) y = length (filter (\<lambda>x. g x = y) xs)"
  by (induction xs) simp_all

lemma Missing_count:
  assumes "healthy d" "store_inv d"
  shows "count_list (fst (Missing d)) B = card (missing_of d B)"
proof -
  let ?ks = "filter (in_range all_missing) (map fst (kv d))"
  have "sorted_wrt (<) ?ks"
    using assms(2) by (simp add: store_inv_def sorted_wrt_filter)
  then have dist: "distinct ?ks" using strict_sorted_iff by blast
  have "count_list (fst (Missing d)) B = length (filter (\<lambda>k. unpack k ! 1 = B) ?ks)"
    by (simp add: Missing_healthy [OF assms(1)] count_list_map_filter)
  also have "\<dots> = card ({k. unpack k ! 1 = B} \<inter> set ?ks)"
    using dist by (rule distinct_length_filter)
  also have "{k. unpack k ! 1 = B} \<inter> set ?ks = missing_of d B"
    by (auto simp: missing_of_def keys_def)
  finally show ?thesis .
qed

lemma Missing_set:
  assumes "healthy d"
  shows "B \<in> set (fst (Missing d)) \<longleftrightarrow> missing_of d B \<noteq> {}"
  by (auto simp: Missing_healthy [OF assms] missing_of_def keys_def)

lemma unpack_missing_dep:
  "bar_free dep \<Longrightarrow> unpack (pack missing [dep, x]) ! 1 = dep"
  "bar_free dep \<Longrightarrow> unpack (pack missing [dep, x]) ! Suc 0 = dep"
  by (simp_all add: unpack_pack2 bar_free_tags)

lemma missing_record_in_all:
  "valid_ref B \<Longrightarrow> in_range all_missing (pack missing [B, x])"
proof -
  assume "valid_ref B"
  then have "bracketed (B @ CHR ''|'' # x)"
    by (cases B) (simp_all add: valid_ref_def bracketed_def)
  moreover have "pack missing [B, x] = pack missing [B @ CHR ''|'' # x]"
    by (simp add: pack_concat)
  ultimately show ?thesis unfolding in_all_missing_iff by blast
qed

lemma missing_of_Place:
  assumes h: "healthy d" and B: "valid_ref B" and A: "bar_free A" "A \<noteq> B"
    and deps: "\<forall>dep \<in> set deps. bar_free dep"
  shows "missing_of (fst (Place d A location ct deps)) B
       = missing_of d B \<union> (if B \<in> set deps \<and> pack found [B] \<notin> keys d
                             then {pack missing [B, A]} else {})"
proof -
  let ?new = "(\<lambda>dep. pack missing [dep, A]) ` {dep \<in> set deps. pack found [dep] \<notin> keys d}"
  have k: "keys (fst (Place d A location ct deps)) =
     (keys d \<union> set (static_keys (PlaceCall A location ct deps)) \<union> ?new)
     - {k \<in> keys d. in_range (missing_range A) k}"
    by (rule keys_Place [OF h])
  have st: "\<not> in_range all_missing k" if "k \<in> set (static_keys (PlaceCall A location ct deps))" for k
    using static_keys_tag [OF that] all_missing_tag by blast
  have del: "unpack k ! 1 \<noteq> B" if "in_range (missing_range A) k" for k
    using that A by (auto simp: in_missing_range_iff unpack_missing_dep)
  have new: "k \<in> ?new \<and> unpack k ! 1 = B \<longleftrightarrow>
               k = pack missing [B, A] \<and> B \<in> set deps \<and> pack found [B] \<notin> keys d" for k
    using deps by (auto simp: unpack_missing_dep)
  have Bin: "in_range all_missing (pack missing [B, A])"
    by (rule missing_record_in_all [OF B])
  show ?thesis
    unfolding missing_of_def k using st del new Bin by (auto split: if_splits)
qed

section \<open>Missing fan-in\<close>

lemma static_found_keys:
  "k \<in> set (static_keys c) \<Longrightarrow> key_tag k = found \<Longrightarrow> k = pack found [call_ref c]"
  by (cases c) (auto simp: key_tag_simps tag_neqs tag_neqs_sym split: if_splits)

lemma declares_ref: "declares B c \<Longrightarrow> call_ref c \<noteq> B"
  by (cases c) auto

lemma found_key_exec:
  assumes "healthy d" "pack found [B] \<notin> keys d" "declares B c"
  shows "pack found [B] \<notin> keys (fst (exec d c))"
proof
  assume "pack found [B] \<in> keys (fst (exec d c))"
  then have "pack found [B] \<in> {k \<in> keys (fst (exec d c)). key_tag k = found}"
    by (simp add: key_tag_simps)
  then have "pack found [B] \<in> {k \<in> set (static_keys c). key_tag k = found}"
    unfolding tagged_keys_exec [OF assms(1) tag_neqs(1)] using assms(2) by blast
  then have "pack found [B] = pack found [call_ref c]" using static_found_keys by blast
  then have "B = call_ref c" by (simp only: pack_inject1)
  with declares_ref [OF assms(3)] show False by simp
qed

lemma missing_of_exec:
  assumes "healthy d" "valid_ref B" "pack found [B] \<notin> keys d" "declares B c"
  shows "missing_of (fst (exec d c)) B = insert (pack missing [B, call_ref c]) (missing_of d B)"
proof (cases c)
  case (PlaceCall A location ct deps)
  with assms(4) have "bar_free A" "A \<noteq> B" "\<forall>dep \<in> set deps. bar_free dep" "B \<in> set deps"
    by (simp_all add: valid_ref_def)
  with missing_of_Place [OF assms(1,2), of A deps location ct] assms(3)
  show ?thesis unfolding PlaceCall exec_Place by simp
next
  case (PlaceMIMECall ref mime)
  with assms(4) show ?thesis by simp
qed

lemma missing_of_run:
  assumes "valid_ref B" "\<forall>c \<in> set cs. declares B c"
  shows "healthy d \<Longrightarrow> pack found [B] \<notin> keys d \<Longrightarrow>
     missing_of (run d cs) B = missing_of d B \<union> (\<lambda>c. pack missing [B, call_ref c]) ` set cs
     \<and> pack found [B] \<notin> keys (run d cs)"
  using assms(2)
proof (induction cs arbitrary: d)
  case Nil
  then show ?case by simp
next
  case (Cons c cs)
  from Cons.prems have dc: "declares B c" and rest: "\<forall>c \<in> set cs. declares B c" by simp_all
  have h': "healthy (fst (exec d c))" by (rule exec_healthy [OF Cons.prems(1)])
  have nf': "pack found [B] \<notin> keys (fst (exec d c))"
    by (rule found_key_exec [OF Cons.prems(1,2) dc])
  from Cons.IH [OF h' nf' rest]
    missing_of_exec [OF Cons.prems(1) assms(1) Cons.prems(2) dc]
  show ?case by auto
qed

lemma missing_keys_inj:
  "distinct (map call_ref cs) \<Longrightarrow>
     card ((\<lambda>c. pack missing [B, call_ref c]) ` set cs) = length cs"
proof -
  assume d: "distinct (map call_ref cs)"
  have "(\<lambda>c. pack missing [B, call_ref c]) ` set cs = (\<lambda>r. pack missing [B, r]) ` set (map call_ref cs)"
    by auto
  moreover have "inj (\<lambda>r. pack missing [B, r])" by (simp add: inj_def pack_concat)
  ultimately have "card ((\<lambda>c. pack missing [B, call_ref c]) ` set cs) = card (set (map call_ref cs))"
    by (metis card_image inj_on_subset subset_UNIV)
  with d show ?thesis by (metis distinct_card length_map)
qed

lemma missing_of_Place_self:
  assumes h: "healthy d" and B: "valid_ref B" and deps: "\<forall>dep \<in> set deps. bar_free dep"
    and self: "B \<notin> set deps"
  shows "missing_of (fst (Place d B location ct deps)) B
       = missing_of d B - {k \<in> keys d. in_range (missing_range B) k}"
proof -
  let ?new = "(\<lambda>dep. pack missing [dep, B]) ` {dep \<in> set deps. pack found [dep] \<notin> keys d}"
  have k: "keys (fst (Place d B location ct deps)) =
     (keys d \<union> set (static_keys (PlaceCall B location ct deps)) \<union> ?new)
     - {k \<in> keys d. in_range (missing_range B) k}"
    by (rule keys_Place [OF h])
  have st: "\<not> in_range all_missing k" if "k \<in> set (static_keys (PlaceCall B location ct deps))" for k
    using static_keys_tag [OF that] all_missing_tag by blast
  have new: "unpack k ! 1 \<noteq> B" if "k \<in> ?new" for k
    using that deps self by (auto simp: unpack_missing_dep)
  show ?thesis
    unfolding missing_of_def k using st new by auto
qed

lemma declares_parent_key:
  "declares B c \<Longrightarrow> pack parent [B, call_ref c] \<in> set (static_keys c)"
  by (cases c) auto

lemma declares_bracketed: "declares B c \<Longrightarrow> bracketed (call_ref c)"
  by (cases c) (auto simp: valid_ref_def)

text \<open>
  Claim C2, as amended.  Take a store none of whose operations fails (so that every call
  returns nil and every scan, the deletion scan of Place among them, runs to its end),
  holding one record per key.  Let B be a non-empty ref without a bar that does not begin
  with the byte 0xFF, with no found record and no missing record in the store, and let N
  calls of Place by N different refs of that form, none of them B, each declare B as a
  dependency (all dependencies being free of bars).  Then Missing sends B exactly N times
  and the store holds N records in the range \<^verbatim>\<open>missing|B|*\<close>.  A following Place of B
  whose dependencies are free of bars and do not include B itself returns nil, its batch
  deletes each of the N records, and afterwards Missing sends B zero times, while every
  edge \<^verbatim>\<open>parent|B|ref\<close> is still in the store.
\<close>

theorem missing_fan_in:
  assumes "healthy d0" "store_inv d0" "valid_ref B"
    and "pack found [B] \<notin> keys d0" and "B \<notin> set (fst (Missing d0))"
    and "\<forall>c \<in> set cs. declares B c" and "distinct (map call_ref cs)"
    and "B \<notin> set deps" and "\<forall>dep \<in> set deps. bar_free dep"
  shows "count_list (fst (Missing (run d0 cs))) B = length cs
    \<and> card {k \<in> keys (run d0 cs). in_range (missing_range B) k} = length cs
    \<and> (\<forall>c \<in> set cs. Delete (pack missing [B, call_ref c])
          \<in> set (place_batch (run d0 cs) B location ct deps))
    \<and> snd (snd (Place (run d0 cs) B location ct deps)) = None
    \<and> count_list (fst (Missing (fst (Place (run d0 cs) B location ct deps)))) B = 0
    \<and> (\<forall>c \<in> set cs. pack parent [B, call_ref c]
          \<in> keys (fst (Place (run d0 cs) B location ct deps)))"
proof -
  let ?d1 = "run d0 cs"
  let ?d2 = "fst (Place ?d1 B location ct deps)"
  let ?recs = "(\<lambda>c. pack missing [B, call_ref c]) ` set cs"
  have bfB: "bar_free B" using assms(3) by (simp add: valid_ref_def)
  have h1: "healthy ?d1" and inv1: "store_inv ?d1"
    using assms(1,2) by (simp_all add: run_healthy run_store_inv)
  have "missing_of d0 B = {}" using Missing_set [OF assms(1)] assms(5) by blast
  with missing_of_run [OF assms(3,6,1,4)] have m1: "missing_of ?d1 B = ?recs" by simp
  have 1: "count_list (fst (Missing ?d1)) B = length cs"
    by (simp add: Missing_count [OF h1 inv1] m1 missing_keys_inj [OF assms(7)])
  have rng: "{k \<in> keys ?d1. in_range (missing_range B) k} = ?recs"
  proof
    show "{k \<in> keys ?d1. in_range (missing_range B) k} \<subseteq> ?recs"
    proof
      fix k assume "k \<in> {k \<in> keys ?d1. in_range (missing_range B) k}"
      then obtain f where k: "k \<in> keys ?d1" "k = pack missing [B, f]"
        by (auto simp: in_missing_range_iff)
      then have "k \<in> missing_of ?d1 B"
        using missing_record_in_all [OF assms(3)] unpack_missing_dep(1) [OF bfB]
        by (simp add: missing_of_def)
      then show "k \<in> ?recs" by (simp only: m1)
    qed
    show "?recs \<subseteq> {k \<in> keys ?d1. in_range (missing_range B) k}"
    proof
      fix k assume "k \<in> ?recs"
      then obtain c where c: "c \<in> set cs" and k: "k = pack missing [B, call_ref c]" by blast
      from c assms(6) have "bracketed (call_ref c)" using declares_bracketed by blast
      then have "in_range (missing_range B) k" unfolding in_missing_range_iff k by blast
      moreover from \<open>k \<in> ?recs\<close> have "k \<in> keys ?d1" using m1 by (auto simp: missing_of_def)
      ultimately show "k \<in> {k \<in> keys ?d1. in_range (missing_range B) k}" by simp
    qed
  qed
  have 2: "card {k \<in> keys ?d1. in_range (missing_range B) k} = length cs"
    by (simp only: rng missing_keys_inj [OF assms(7)])
  have "set (fst (db_Iterate ?d1 (missing_range B))) = ?recs"
    by (simp only: scan_set_healthy [OF h1] rng)
  then have 3: "\<forall>c \<in> set cs. Delete (pack missing [B, call_ref c])
          \<in> set (place_batch ?d1 B location ct deps)"
    by (auto simp: place_batch_def)
  have 4: "snd (snd (Place ?d1 B location ct deps)) = None"
    by (simp add: Place_healthy [OF h1])
  have h2: "healthy ?d2" using exec_healthy [OF h1, of "PlaceCall B location ct deps"]
    by (simp add: exec_Place del: exec.simps)
  have inv2: "store_inv ?d2" by (rule Place_store_inv [OF inv1])
  have "missing_of ?d2 B = {}"
    by (simp add: missing_of_Place_self [OF h1 assms(3,9,8)] rng m1)
  then have 5: "count_list (fst (Missing ?d2)) B = 0"
    by (simp add: Missing_count [OF h2 inv2])
  have 6: "\<forall>c \<in> set cs. pack parent [B, call_ref c] \<in> keys ?d2"
  proof
    fix c assume c: "c \<in> set cs"
    with assms(6) have "pack parent [B, call_ref c] \<in> set (static_keys c)"
      using declares_parent_key by blast
    with c have "pack parent [B, call_ref c]
        \<in> {k \<in> set (concat (map static_keys cs)). key_tag k = parent}"
      by (auto simp: key_tag_simps)
    then have "pack parent [B, call_ref c] \<in> {k \<in> keys ?d1. key_tag k = parent}"
      unfolding tagged_keys_run [OF tag_neqs(2) assms(1)] by blast
    then have "pack parent [B, call_ref c]
        \<in> {k \<in> keys (fst (exec ?d1 (PlaceCall B location ct deps))). key_tag k = parent}"
      unfolding tagged_keys_exec [OF h1 tag_neqs(2)] by blast
    then show "pack parent [B, call_ref c] \<in> keys ?d2"
      by (simp add: exec_Place del: exec.simps)
  qed
  from 1 2 3 4 5 6 show ?thesis by blast
qed

theorem missing_fan_in_witness:
  "count_list (fst (Missing (run empty_db
      [PlaceCall ''A1'' ''/1'' [] [''B''], PlaceCall ''A2'' ''/2'' [] [''B'']]))) ''B'' = 2
   \<and> count_list (fst (Missing (fst (Place (run empty_db
      [PlaceCall ''A1'' ''/1'' [] [''B''], PlaceCall ''A2'' ''/2'' [] [''B'']]) ''B'' ''/b'' [] [])))) ''B'' = 0
   \<and> ''parent|B|A1'' \<in> keys (fst (Place (run empty_db
      [PlaceCall ''A1'' ''/1'' [] [''B''], PlaceCall ''A2'' ''/2'' [] [''B'']]) ''B'' ''/b'' [] []))
   \<and> ''parent|B|A2'' \<in> keys (fst (Place (run empty_db
      [PlaceCall ''A1'' ''/1'' [] [''B''], PlaceCall ''A2'' ''/2'' [] [''B'']]) ''B'' ''/b'' [] []))"
proof -
  let ?cs = "[PlaceCall ''A1'' ''/1'' [] [''B''], PlaceCall ''A2'' ''/2'' [] [''B'']]"
  have v: "valid_ref ''B''" by (simp add: valid_ref_def bar_free_def bracketed_def)
  have nf: "pack found [''B''] \<notin> keys empty_db" by (simp add: healthy_empty_db)
  have nm: "''B'' \<notin> set (fst (Missing empty_db))"
    by (simp add: Missing_healthy [OF healthy_empty_db(1)]) (simp add: empty_db_def)
  have dc: "\<forall>c \<in> set ?cs. declares ''B'' c"
    by (simp add: valid_ref_def bar_free_def bracketed_def)
  have di: "distinct (map call_ref ?cs)" by simp
  have e: "pack parent [''B'', ''A1''] = ''parent|B|A1''" "pack parent [''B'', ''A2''] = ''parent|B|A2''"
    by (simp_all add: pack.simps consts_defs)
  from missing_fan_in [OF healthy_empty_db(1,2) v nf nm dc di, of "[]" "''/b''" "[]"] e
  show ?thesis by simp
qed

theorem missing_fan_in_counterexample:
  "fst (Missing (run empty_db [PlaceCall '''' ''/a'' '''' [''B'']])) = [''B'']
   \<and> snd (snd (Place (run empty_db [PlaceCall '''' ''/a'' '''' [''B'']]) ''B'' ''/b'' '''' [])) = None
   \<and> fst (Missing (fst (Place (run empty_db [PlaceCall '''' ''/a'' '''' [''B'']]) ''B'' ''/b'' '''' [])))
       = [''B'']
   \<and> count_list (fst (Missing (fst (Place (run empty_db [PlaceCall '''' ''/a'' '''' [''B'']])
                                         ''B'' ''/b'' '''' [])))) ''B'' = 1
   \<and> snd (Place (run db_fresh_bad [PlaceCall ''A'' ''/a'' '''' [''B'']]) ''B'' ''/b'' '''' [])
       = ([ErrIO 9], None)
   \<and> fst (Missing (fst (Place (run db_fresh_bad [PlaceCall ''A'' ''/a'' '''' [''B'']])
                                ''B'' ''/b'' '''' []))) = [''B'']
   \<and> snd (snd (Place (run empty_db [PlaceCall ''A'' ''/a'' '''' [''B'']]) ''B'' ''/b'' '''' [''B''])) = None
   \<and> fst (Missing (fst (Place (run empty_db [PlaceCall ''A'' ''/a'' '''' [''B'']])
                                ''B'' ''/b'' '''' [''B'']))) = [''B'']"
  by (simp add: run_defs db_fresh_bad_def Missing_def streamBlobs_def stream_keys.simps unpack_def)

section \<open>Stats\<close>

lemma stats_step_Blobs:
  "stats_step s k = Some s' \<Longrightarrow> Blobs s' = Blobs s + (if key_tag k = found then 1 else 0)"
  by (auto simp: stats_step_def key_tag_def Let_def tag_neqs tag_neqs_sym split: if_splits)

lemma stats_step_Links:
  "stats_step s k = Some s' \<Longrightarrow> Links s' = Links s + (if key_tag k = parent then 1 else 0)"
  by (auto simp: stats_step_def key_tag_def Let_def tag_neqs tag_neqs_sym split: if_splits)

lemma stats_step_Missing:
  "stats_step s k = Some s' \<Longrightarrow> Missing_n s' = Missing_n s + (if key_tag k = missing then 1 else 0)"
  by (auto simp: stats_step_def key_tag_def Let_def tag_neqs tag_neqs_sym split: if_splits)

lemma stats_step_Unknown:
  "stats_step s k = Some s' \<Longrightarrow>
     Unknown s' = Unknown s
       + (if key_tag k \<in> {last_key, found, parent, missing, camliType, mimeType} then 0 else 1)"
  by (auto simp: stats_step_def key_tag_def Let_def tag_neqs tag_neqs_sym split: if_splits)

lemma stats_step_CamliTypes:
  "stats_step s k = Some s' \<Longrightarrow>
     CamliTypes s' = (if key_tag k = camliType then incr (CamliTypes s) (unpack k ! 1) else CamliTypes s)"
  by (auto simp: stats_step_def key_tag_def Let_def tag_neqs tag_neqs_sym split: if_splits)

lemma stats_step_MIMETypes:
  "stats_step s k = Some s' \<Longrightarrow>
     MIMETypes s' = (if key_tag k = mimeType then incr (MIMETypes s) (unpack k ! 1) else MIMETypes s)"
  by (auto simp: stats_step_def key_tag_def Let_def tag_neqs tag_neqs_sym split: if_splits)

lemma stats_step_safe:
  "key_tag k \<notin> {camliType, mimeType} \<or> 1 < length (unpack k) \<Longrightarrow> \<exists>s'. stats_step s k = Some s'"
  by (auto simp: stats_step_def key_tag_def Let_def)

lemma stats_loop_safe:
  "\<forall>k \<in> set ks. key_tag k \<notin> {camliType, mimeType} \<or> 1 < length (unpack k) \<Longrightarrow>
     \<exists>s'. stats_loop s ks = Some s'"
proof (induction ks arbitrary: s)
  case Nil
  then show ?case by simp
next
  case (Cons k ks)
  then obtain s1 where "stats_step s k = Some s1" using stats_step_safe [of k s] by auto
  with Cons show ?case by simp
qed

lemma stats_loop_Blobs:
  "stats_loop s ks = Some s' \<Longrightarrow>
     Blobs s' = Blobs s + of_nat (length (filter (\<lambda>k. key_tag k = found) ks))"
proof (induction ks arbitrary: s)
  case Nil
  then show ?case by simp
next
  case (Cons k ks)
  then obtain s1 where s1: "stats_step s k = Some s1" "stats_loop s1 ks = Some s'"
    by (auto split: option.splits)
  from Cons.IH [OF s1(2)] stats_step_Blobs [OF s1(1)] show ?case by simp
qed

lemma stats_loop_Links:
  "stats_loop s ks = Some s' \<Longrightarrow>
     Links s' = Links s + of_nat (length (filter (\<lambda>k. key_tag k = parent) ks))"
proof (induction ks arbitrary: s)
  case Nil
  then show ?case by simp
next
  case (Cons k ks)
  then obtain s1 where s1: "stats_step s k = Some s1" "stats_loop s1 ks = Some s'"
    by (auto split: option.splits)
  from Cons.IH [OF s1(2)] stats_step_Links [OF s1(1)] show ?case by simp
qed

lemma stats_loop_Missing:
  "stats_loop s ks = Some s' \<Longrightarrow>
     Missing_n s' = Missing_n s + of_nat (length (filter (\<lambda>k. key_tag k = missing) ks))"
proof (induction ks arbitrary: s)
  case Nil
  then show ?case by simp
next
  case (Cons k ks)
  then obtain s1 where s1: "stats_step s k = Some s1" "stats_loop s1 ks = Some s'"
    by (auto split: option.splits)
  from Cons.IH [OF s1(2)] stats_step_Missing [OF s1(1)] show ?case by simp
qed

lemma stats_loop_Unknown:
  "stats_loop s ks = Some s' \<Longrightarrow>
     Unknown s' = Unknown s + of_nat (length (filter
       (\<lambda>k. key_tag k \<notin> {last_key, found, parent, missing, camliType, mimeType}) ks))"
proof (induction ks arbitrary: s)
  case Nil
  then show ?case by simp
next
  case (Cons k ks)
  then obtain s1 where s1: "stats_step s k = Some s1" "stats_loop s1 ks = Some s'"
    by (auto split: option.splits)
  from Cons.IH [OF s1(2)] stats_step_Unknown [OF s1(1)] show ?case by simp
qed

lemma bumped_incr:
  "bumped (incr m x y) n = (if y = x then bumped (m y) (Suc n) else bumped (m y) n)"
  by (simp add: bumped_def incr_def)

lemma stats_loop_CamliTypes:
  "stats_loop s ks = Some s' \<Longrightarrow>
     CamliTypes s' x = bumped (CamliTypes s x)
       (length (filter (\<lambda>k. key_tag k = camliType \<and> unpack k ! 1 = x) ks))"
proof (induction ks arbitrary: s)
  case Nil
  then show ?case by (simp add: bumped_def)
next
  case (Cons k ks)
  then obtain s1 where s1: "stats_step s k = Some s1" "stats_loop s1 ks = Some s'"
    by (auto split: option.splits)
  from Cons.IH [OF s1(2)] stats_step_CamliTypes [OF s1(1)] show ?case
    by (auto simp: bumped_incr)
qed

lemma stats_loop_MIMETypes:
  "stats_loop s ks = Some s' \<Longrightarrow>
     MIMETypes s' x = bumped (MIMETypes s x)
       (length (filter (\<lambda>k. key_tag k = mimeType \<and> unpack k ! 1 = x) ks))"
proof (induction ks arbitrary: s)
  case Nil
  then show ?case by (simp add: bumped_def)
next
  case (Cons k ks)
  then obtain s1 where s1: "stats_step s k = Some s1" "stats_loop s1 ks = Some s'"
    by (auto split: option.splits)
  from Cons.IH [OF s1(2)] stats_step_MIMETypes [OF s1(1)] show ?case
    by (auto simp: bumped_incr)
qed

lemma static_found:
  "{k \<in> set (concat (map static_keys cs)). key_tag k = found}
     = (\<lambda>r. pack found [r]) ` set (placed_refs cs)"
  by (induction cs rule: placed_refs.induct)
     (auto simp: key_tag_simps tag_neqs tag_neqs_sym split: if_splits)

lemma static_parent:
  "{k \<in> set (concat (map static_keys cs)). key_tag k = parent}
     = (\<lambda>e. pack parent [fst e, snd e]) ` set (edges cs)"
  by (induction cs rule: edges.induct)
     (auto simp: key_tag_simps tag_neqs tag_neqs_sym image_Un image_image split: if_splits)

lemma static_camliType:
  "{k \<in> set (concat (map static_keys cs)). key_tag k = camliType}
     = (\<lambda>p. pack camliType [fst p, snd p]) ` set (type_pairs cs)"
  by (induction cs rule: type_pairs.induct)
     (auto simp: key_tag_simps tag_neqs tag_neqs_sym split: if_splits)

lemma static_mimeType:
  "{k \<in> set (concat (map static_keys cs)). key_tag k = mimeType}
     = (\<lambda>p. pack mimeType [fst p, snd p]) ` set (mime_pairs cs)"
  by (induction cs rule: mime_pairs.induct)
     (auto simp: key_tag_simps tag_neqs tag_neqs_sym split: if_splits)

lemma fresh_tagged_keys:
  "t \<noteq> missing \<Longrightarrow> {k \<in> keys (run empty_db cs). key_tag k = t}
     = {k \<in> set (concat (map static_keys cs)). key_tag k = t}"
  using tagged_keys_run [OF _ healthy_empty_db(1), of t cs] by (simp add: healthy_empty_db)

lemma count_distinct_keys:
  assumes "store_inv d"
  shows "length (filter P (map fst (kv d))) = card {k \<in> keys d. P k}"
proof -
  have "distinct (map fst (kv d))" using assms strict_sorted_iff by (auto simp: store_inv_def)
  then have "length (filter P (map fst (kv d))) = card ({k. P k} \<inter> set (map fst (kv d)))"
    by (rule distinct_length_filter)
  also have "{k. P k} \<inter> set (map fst (kv d)) = {k \<in> keys d. P k}" by (auto simp: keys_def)
  finally show ?thesis .
qed

lemma card_image_list: "inj_on f (set xs) \<Longrightarrow> card (f ` set xs) = length (remdups xs)"
  by (simp add: card_image length_remdups_card_conv)

lemma Stats_healthy: "healthy d \<Longrightarrow> Stats d = stats_loop stats_zero (map fst (kv d))"
  by (simp add: Stats_def db_Iterate_healthy in_range_def)

lemma bumped_None: "bumped None n = entry n"
  by (simp add: bumped_def entry_def)

lemma fresh_keys_safe:
  assumes "k \<in> keys (run empty_db cs)"
  shows "key_tag k \<notin> {camliType, mimeType} \<or> 1 < length (unpack k)"
proof (cases "key_tag k = camliType")
  case True
  with assms have "k \<in> {k \<in> keys (run empty_db cs). key_tag k = camliType}" by simp
  then obtain p where "k = pack camliType [fst p, snd p]"
    unfolding fresh_tagged_keys [OF tag_neqs(4)] static_camliType by blast
  then show ?thesis using length_unpack_pack2 [of camliType "fst p" "snd p"] by simp
next
  case False
  show ?thesis
  proof (cases "key_tag k = mimeType")
    case True
    with assms have "k \<in> {k \<in> keys (run empty_db cs). key_tag k = mimeType}" by simp
    then obtain p where "k = pack mimeType [fst p, snd p]"
      unfolding fresh_tagged_keys [OF tag_neqs(5)] static_mimeType by blast
    then show ?thesis using length_unpack_pack2 [of mimeType "fst p" "snd p"] by simp
  next
    case False
    with \<open>key_tag k \<noteq> camliType\<close> show ?thesis by simp
  qed
qed

lemma fresh_keys_known:
  assumes "k \<in> keys (run empty_db cs)"
  shows "key_tag k \<in> {last_key, found, parent, missing, camliType, mimeType}"
proof (rule ccontr)
  assume no: "key_tag k \<notin> {last_key, found, parent, missing, camliType, mimeType}"
  then have "key_tag k \<noteq> missing" by simp
  with assms have "k \<in> {x \<in> keys (run empty_db cs). key_tag x = key_tag k}" by simp
  then have "k \<in> set (concat (map static_keys cs))"
    unfolding fresh_tagged_keys [OF \<open>key_tag k \<noteq> missing\<close>] by simp
  then obtain c where "k \<in> set (static_keys c)" by auto
  then have "key_tag k \<in> {last_key, found, parent, camliType, mimeType}"
    by (cases c) (auto simp: key_tag_simps split: if_splits)
  with no show False by simp
qed

lemma pack2_inj_on:
  "\<forall>p \<in> S. bar_free (fst p) \<Longrightarrow> inj_on (\<lambda>p. pack t [fst p, snd p]) S"
  by (auto simp: inj_on_def pack2_inject prod_eq_iff)

lemma histogram_keys:
  assumes "\<forall>p \<in> set ps. bar_free (fst p)" "bar_free t"
  shows "card {k \<in> (\<lambda>p. pack t [fst p, snd p]) ` set ps. unpack k ! 1 = x}
           = length (remdups (filter (\<lambda>p. fst p = x) ps))"
proof -
  have u: "unpack (pack t [fst p, snd p]) ! 1 = fst p" if "p \<in> set ps" for p
    using that assms by (simp add: unpack_pack2)
  have "{k \<in> (\<lambda>p. pack t [fst p, snd p]) ` set ps. unpack k ! 1 = x}
          = (\<lambda>p. pack t [fst p, snd p]) ` set (filter (\<lambda>p. fst p = x) ps)"
  proof (intro set_eqI iffI)
    fix k assume "k \<in> {k \<in> (\<lambda>p. pack t [fst p, snd p]) ` set ps. unpack k ! 1 = x}"
    then obtain p where p: "p \<in> set ps" "k = pack t [fst p, snd p]" "unpack k ! 1 = x" by blast
    with u [OF p(1)] have "fst p = x" by simp
    with p show "k \<in> (\<lambda>p. pack t [fst p, snd p]) ` set (filter (\<lambda>p. fst p = x) ps)" by simp
  next
    fix k assume "k \<in> (\<lambda>p. pack t [fst p, snd p]) ` set (filter (\<lambda>p. fst p = x) ps)"
    then obtain p where p: "p \<in> set ps" "fst p = x" "k = pack t [fst p, snd p]" by auto
    with u [OF p(1)] show "k \<in> {k \<in> (\<lambda>p. pack t [fst p, snd p]) ` set ps. unpack k ! 1 = x}"
      by blast
  qed
  moreover have "\<forall>p \<in> set (filter (\<lambda>p. fst p = x) ps). bar_free (fst p)"
    using assms(1) by (metis filter_is_subset subsetD)
  then have "inj_on (\<lambda>p. pack t [fst p, snd p]) (set (filter (\<lambda>p. fst p = x) ps))"
    by (rule pack2_inj_on)
  ultimately show ?thesis by (simp only: card_image_list)
qed

text \<open>
  Claim C3, as amended.  After any sequence of calls of Place and PlaceMIME on a fresh
  index whose store does not fail (every call then returns nil), Stats returns: Blobs, the
  number of different refs placed; Missing, the number of missing records in the store;
  Links, the number of different edge records \<^verbatim>\<open>parent|dep|ref\<close> written (an edge written
  again is counted once), which is the number of different edges (dep, ref) when no
  dependency contains a bar; CamliTypes and MIMETypes, for each tag the number of
  different refs recorded under it (no entry when there is none), when no tag contains a
  bar; and Unknown = 0.  The counters are 64-bit words.
\<close>

theorem stats_consistency:
  "\<exists>s. Stats (run empty_db cs) = Some s \<and> all_ok empty_db cs
     \<and> Blobs s = of_nat (length (remdups (placed_refs cs)))
     \<and> Missing_n s = of_nat (length (filter (\<lambda>k. key_tag k = missing) (map fst (kv (run empty_db cs)))))
     \<and> Links s = of_nat (length (remdups (map (\<lambda>e. pack parent [fst e, snd e]) (edges cs))))
     \<and> ((\<forall>e \<in> set (edges cs). bar_free (fst e)) \<longrightarrow>
          Links s = of_nat (length (remdups (edges cs))))
     \<and> ((\<forall>p \<in> set (type_pairs cs). bar_free (fst p)) \<longrightarrow>
          (\<forall>t. CamliTypes s t = entry (length (remdups (filter (\<lambda>p. fst p = t) (type_pairs cs))))))
     \<and> ((\<forall>p \<in> set (mime_pairs cs). bar_free (fst p)) \<longrightarrow>
          (\<forall>m. MIMETypes s m = entry (length (remdups (filter (\<lambda>p. fst p = m) (mime_pairs cs))))))
     \<and> Unknown s = 0"
proof -
  let ?d = "run empty_db cs"
  let ?ks = "map fst (kv ?d)"
  have h: "healthy ?d" and inv: "store_inv ?d"
    by (simp_all add: run_healthy run_store_inv healthy_empty_db)
  have "\<forall>k \<in> set ?ks. key_tag k \<notin> {camliType, mimeType} \<or> 1 < length (unpack k)"
    using fresh_keys_safe [of _ cs] by (simp add: keys_def del: set_map)
  then obtain s where loop: "stats_loop stats_zero ?ks = Some s"
    using stats_loop_safe by blast
  then have st: "Stats ?d = Some s" by (simp add: Stats_healthy [OF h])
  have ok: "all_ok empty_db cs" by (rule run_all_ok [OF healthy_empty_db(1)])
  have blobs: "Blobs s = of_nat (length (remdups (placed_refs cs)))"
  proof -
    have inj: "inj_on (\<lambda>r. pack found [r]) (set (placed_refs cs))"
      by (simp add: inj_on_def pack_inject1)
    have c: "length (filter (\<lambda>k. key_tag k = found) ?ks) = length (remdups (placed_refs cs))"
      by (simp only: count_distinct_keys [OF inv] fresh_tagged_keys [OF tag_neqs(1)]
          static_found card_image_list [OF inj])
    from stats_loop_Blobs [OF loop, unfolded c] show ?thesis by (simp add: stats_zero_def)
  qed
  have miss: "Missing_n s = of_nat (length (filter (\<lambda>k. key_tag k = missing) ?ks))"
    using stats_loop_Missing [OF loop] by (simp add: stats_zero_def del: filter_map)
  have links_card: "Links s = of_nat (card ((\<lambda>e. pack parent [fst e, snd e]) ` set (edges cs)))"
  proof -
    have c: "length (filter (\<lambda>k. key_tag k = parent) ?ks)
        = card ((\<lambda>e. pack parent [fst e, snd e]) ` set (edges cs))"
      by (simp only: count_distinct_keys [OF inv] fresh_tagged_keys [OF tag_neqs(2)] static_parent)
    from stats_loop_Links [OF loop, unfolded c] show ?thesis by (simp add: stats_zero_def)
  qed
  have links: "Links s = of_nat (length (remdups (map (\<lambda>e. pack parent [fst e, snd e]) (edges cs))))"
    unfolding links_card by (simp add: length_remdups_card_conv)
  have links': "(\<forall>e \<in> set (edges cs). bar_free (fst e)) \<longrightarrow>
          Links s = of_nat (length (remdups (edges cs)))"
    unfolding links_card using pack2_inj_on [of "set (edges cs)" parent]
    by (simp add: card_image_list)
  have types: "(\<forall>p \<in> set (type_pairs cs). bar_free (fst p)) \<longrightarrow>
          (\<forall>t. CamliTypes s t = entry (length (remdups (filter (\<lambda>p. fst p = t) (type_pairs cs)))))"
  proof (intro impI allI)
    fix t assume bf: "\<forall>p \<in> set (type_pairs cs). bar_free (fst p)"
    have "{k \<in> keys ?d. key_tag k = camliType \<and> unpack k ! 1 = t}
        = {k \<in> {k \<in> keys ?d. key_tag k = camliType}. unpack k ! 1 = t}" by blast
    then have "card {k \<in> keys ?d. key_tag k = camliType \<and> unpack k ! 1 = t}
        = length (remdups (filter (\<lambda>p. fst p = t) (type_pairs cs)))"
      by (simp only: fresh_tagged_keys [OF tag_neqs(4)] static_camliType
          histogram_keys [OF bf bar_free_tags(5)])
    then have c: "length (filter (\<lambda>k. key_tag k = camliType \<and> unpack k ! 1 = t) ?ks)
        = length (remdups (filter (\<lambda>p. fst p = t) (type_pairs cs)))"
      by (simp only: count_distinct_keys [OF inv])
    from stats_loop_CamliTypes [OF loop, of t, unfolded c]
    show "CamliTypes s t = entry (length (remdups (filter (\<lambda>p. fst p = t) (type_pairs cs))))"
      by (simp add: stats_zero_def bumped_None)
  qed
  have mimes: "(\<forall>p \<in> set (mime_pairs cs). bar_free (fst p)) \<longrightarrow>
          (\<forall>m. MIMETypes s m = entry (length (remdups (filter (\<lambda>p. fst p = m) (mime_pairs cs)))))"
  proof (intro impI allI)
    fix m assume bf: "\<forall>p \<in> set (mime_pairs cs). bar_free (fst p)"
    have "{k \<in> keys ?d. key_tag k = mimeType \<and> unpack k ! 1 = m}
        = {k \<in> {k \<in> keys ?d. key_tag k = mimeType}. unpack k ! 1 = m}" by blast
    then have "card {k \<in> keys ?d. key_tag k = mimeType \<and> unpack k ! 1 = m}
        = length (remdups (filter (\<lambda>p. fst p = m) (mime_pairs cs)))"
      by (simp only: fresh_tagged_keys [OF tag_neqs(5)] static_mimeType
          histogram_keys [OF bf bar_free_tags(6)])
    then have c: "length (filter (\<lambda>k. key_tag k = mimeType \<and> unpack k ! 1 = m) ?ks)
        = length (remdups (filter (\<lambda>p. fst p = m) (mime_pairs cs)))"
      by (simp only: count_distinct_keys [OF inv])
    from stats_loop_MIMETypes [OF loop, of m, unfolded c]
    show "MIMETypes s m = entry (length (remdups (filter (\<lambda>p. fst p = m) (mime_pairs cs))))"
      by (simp add: stats_zero_def bumped_None)
  qed
  have c: "filter (\<lambda>k. key_tag k \<notin> {last_key, found, parent, missing, camliType, mimeType}) ?ks = []"
    using fresh_keys_known [of _ cs] by (simp add: filter_empty_conv keys_def del: set_map filter_map)
  have unk: "Unknown s = 0"
    using stats_loop_Unknown [OF loop, unfolded c] by (simp add: stats_zero_def)
  from st ok blobs miss links links' types mimes unk show ?thesis by blast
qed

theorem stats_consistency_witness:
  "\<exists>s. Stats (run empty_db [PlaceCall ''r1'' ''/a'' ''note'' [''r2''],
                            PlaceCall ''r2'' ''/b'' ''note'' []]) = Some s
     \<and> Blobs s = 2 \<and> Links s = 1 \<and> Missing_n s = 0 \<and> CamliTypes s ''note'' = Some 2"
proof -
  let ?cs = "[PlaceCall ''r1'' ''/a'' ''note'' [''r2''], PlaceCall ''r2'' ''/b'' ''note'' []]"
  have kv: "map fst (kv (run empty_db ?cs))
      = [''found|r1'', ''found|r2'', ''last'', ''parent|r2|r1'', ''type|note|r1'', ''type|note|r2'']"
    by (simp add: run_defs)
  have m: "length (filter (\<lambda>k. key_tag k = missing) (map fst (kv (run empty_db ?cs)))) = 0"
    unfolding kv by (simp add: key_tag_def unpack_def missing_def)
  have e: "\<forall>e \<in> set (edges ?cs). bar_free (fst e)" by (simp add: bar_free_def)
  have t: "\<forall>p \<in> set (type_pairs ?cs). bar_free (fst p)" by (simp add: bar_free_def)
  from stats_consistency [of ?cs] obtain s where s: "Stats (run empty_db ?cs) = Some s"
    "Blobs s = of_nat (length (remdups (placed_refs ?cs)))"
    "Missing_n s = of_nat (length (filter (\<lambda>k. key_tag k = missing) (map fst (kv (run empty_db ?cs)))))"
    "(\<forall>e \<in> set (edges ?cs). bar_free (fst e)) \<longrightarrow> Links s = of_nat (length (remdups (edges ?cs)))"
    "(\<forall>p \<in> set (type_pairs ?cs). bar_free (fst p)) \<longrightarrow>
       (\<forall>t. CamliTypes s t = entry (length (remdups (filter (\<lambda>p. fst p = t) (type_pairs ?cs)))))"
    by blast
  from s(2) have "Blobs s = 2" by simp
  moreover from s(3) m have "Missing_n s = 0" by simp
  moreover from s(4) e have "Links s = 1" by simp
  moreover from s(5) t have "CamliTypes s ''note'' = Some 2" by (simp add: entry_def)
  ultimately show ?thesis using s(1) by blast
qed

text \<open>
  The same edge written by two calls is one key: Links is 1 where two edges were handed
  to Place.
\<close>

theorem stats_consistency_counterexample:
  "all_ok empty_db [PlaceCall ''r1'' ''/a'' ''note'' [''r2''], PlaceCall ''r1'' ''/a'' ''note'' [''r2'']]
   \<and> length (edges [PlaceCall ''r1'' ''/a'' ''note'' [''r2''],
                     PlaceCall ''r1'' ''/a'' ''note'' [''r2'']]) = 2
   \<and> map_option Links (Stats (run empty_db [PlaceCall ''r1'' ''/a'' ''note'' [''r2''],
                                             PlaceCall ''r1'' ''/a'' ''note'' [''r2'']])) = Some 1"
proof -
  have kv: "fst (db_Iterate (run empty_db [PlaceCall ''r1'' ''/a'' ''note'' [''r2''],
                                  PlaceCall ''r1'' ''/a'' ''note'' [''r2'']]) None)
      = [''found|r1'', ''last'', ''missing|r2|r1'', ''parent|r2|r1'', ''type|note|r1'']"
    by (simp add: run_defs)
  have ok: "all_ok empty_db [PlaceCall ''r1'' ''/a'' ''note'' [''r2''],
                             PlaceCall ''r1'' ''/a'' ''note'' [''r2'']]"
    by (rule run_all_ok [OF healthy_empty_db(1)])
  have "map_option Links (Stats (run empty_db [PlaceCall ''r1'' ''/a'' ''note'' [''r2''],
                                             PlaceCall ''r1'' ''/a'' ''note'' [''r2'']])) = Some 1"
    unfolding Stats_def kv
    by (simp add: stats_step_def stats_zero_def unpack_def consts_defs Let_def incr_def)
  with ok show ?thesis by simp
qed

section \<open>The frame of PlaceMIME\<close>

lemma stats_loop_panics:
  "stats_loop s ks = None \<longleftrightarrow> (\<exists>k \<in> set ks. stats_step stats_zero k = None)"
proof (induction ks arbitrary: s)
  case Nil
  then show ?case by simp
next
  case (Cons k ks)
  have indep: "stats_step s k = None \<longleftrightarrow> stats_step stats_zero k = None"
    by (auto simp: stats_step_def Let_def split: if_splits)
  show ?case
  proof (cases "stats_step s k")
    case None
    with indep show ?thesis by simp
  next
    case (Some s1)
    with indep Cons.IH [of s1] show ?thesis by auto
  qed
qed

lemma stats_loop_Blobs_eq:
  assumes "set ks' = insert k (set ks)" and "stats_step stats_zero k \<noteq> None"
    and "filter (\<lambda>x. key_tag x = found) ks' = filter (\<lambda>x. key_tag x = found) ks"
  shows "map_option Blobs (stats_loop s ks') = map_option Blobs (stats_loop s ks)"
proof (cases "stats_loop s ks")
  case None
  then have "stats_loop s ks' = None"
    unfolding stats_loop_panics using assms(1) by auto
  with None show ?thesis by simp
next
  case (Some s1)
  then have "\<not> (\<exists>x \<in> set ks. stats_step stats_zero x = None)"
    using stats_loop_panics [of s ks] by simp
  with assms(1,2) have "\<not> (\<exists>x \<in> set ks'. stats_step stats_zero x = None)" by auto
  then have "stats_loop s ks' \<noteq> None"
    using stats_loop_panics [of s ks'] by simp
  then obtain s2 where s2: "stats_loop s ks' = Some s2" by blast
  from stats_loop_Blobs [OF Some] stats_loop_Blobs [OF s2] assms(3) Some s2
  show ?thesis by simp
qed

lemma filter_kv_put:
  "\<not> P k \<Longrightarrow> filter P (map fst (kv_put k v xs)) = filter P (map fst xs)"
  by (induction xs) auto

lemma mime_key_safe: "stats_step stats_zero (pack mimeType [mime, ref]) \<noteq> None"
  using stats_step_safe [of "pack mimeType [mime, ref]" stats_zero]
    length_unpack_pack2 [of mimeType mime ref]
  by auto

lemma PlaceMIME_cases:
  assumes "PlaceMIME d ref mime = (d', err)"
  obtains e where "err = Some e" "d' = d"
  | "err = None" "d' = d\<lparr>kv := kv_put (pack mimeType [mime, ref]) [] (kv d)\<rparr>"
proof -
  from assms have "(\<exists>e. err = Some e \<and> d' = d)
      \<or> (err = None \<and> d' = d\<lparr>kv := kv_put (pack mimeType [mime, ref]) [] (kv d)\<rparr>)"
    by (auto simp: PlaceMIME_def db_Write_def apply_batch_def split: option.splits)
  then show thesis using that by blast
qed

text \<open>
  Claim C10.  PlaceMIME writes the one key \<^verbatim>\<open>mime|mime|ref\<close> (with an empty value) or, when
  the write fails, nothing.  Every other key keeps its value: no found record is created,
  \<^verbatim>\<open>last\<close> is not touched, no key is deleted and the missing records stay as they are.
  So the Blobs count of Stats is the same before and after the call, and a ref that has
  no found record still gets its missing record when a later Place declares it as a
  dependency.
\<close>

theorem PlaceMIME_frame:
  assumes "PlaceMIME d ref mime = (d', err)"
  shows "(err = None \<longrightarrow> kv d' = kv_put (pack mimeType [mime, ref]) [] (kv d))
    \<and> (err \<noteq> None \<longrightarrow> d' = d)
    \<and> (\<forall>k. k \<noteq> pack mimeType [mime, ref] \<longrightarrow> map_of (kv d') k = map_of (kv d) k)
    \<and> (\<forall>r. map_of (kv d') (pack found [r]) = map_of (kv d) (pack found [r]))
    \<and> map_of (kv d') (pack last_key []) = map_of (kv d) (pack last_key [])
    \<and> keys d \<subseteq> keys d'
    \<and> keys d' \<subseteq> insert (pack mimeType [mime, ref]) (keys d)
    \<and> (iter_fault d None = None \<longrightarrow> map_option Blobs (Stats d') = map_option Blobs (Stats d))
    \<and> (map_of (kv d) (pack found [ref]) = None \<and> ref \<in> set deps \<longrightarrow>
          Put (pack missing [ref, x]) [] \<in> set (place_batch d' x location ct deps))"
proof -
  let ?K = "pack mimeType [mime, ref]"
  have other: "\<forall>k. k \<noteq> ?K \<longrightarrow> map_of (kv d') k = map_of (kv d) k"
    using assms by (cases rule: PlaceMIME_cases) (simp_all add: map_of_kv_put)
  have "\<And>r. pack found [r] \<noteq> ?K"
    using pack_tag_neq [OF bar_free_tags(1) bar_free_tags(6) tag_neqs(9)] by blast
  with other have fnd: "\<forall>r. map_of (kv d') (pack found [r]) = map_of (kv d) (pack found [r])"
    by blast
  have "pack last_key [] \<noteq> ?K"
    using pack_tag_neq [OF bar_free_tags(4) bar_free_tags(6) tag_neqs(14)] by blast
  with other have lst: "map_of (kv d') (pack last_key []) = map_of (kv d) (pack last_key [])"
    by blast
  have ks: "keys d \<subseteq> keys d'" "keys d' \<subseteq> insert ?K (keys d)"
    using assms by (cases rule: PlaceMIME_cases; auto simp: keys_def keys_kv_put simp del: set_map)+
  have blobs: "iter_fault d None = None \<longrightarrow> map_option Blobs (Stats d') = map_option Blobs (Stats d)"
  proof
    assume nf: "iter_fault d None = None"
    from assms show "map_option Blobs (Stats d') = map_option Blobs (Stats d)"
    proof (cases rule: PlaceMIME_cases)
      case (1 e)
      then show ?thesis by simp
    next
      case 2
      have t: "\<not> key_tag ?K = found" by (simp add: key_tag_simps tag_neqs_sym)
      have "map_option Blobs (stats_loop stats_zero (map fst (kv_put ?K [] (kv d))))
          = map_option Blobs (stats_loop stats_zero (map fst (kv d)))"
        by (rule stats_loop_Blobs_eq [OF keys_kv_put mime_key_safe filter_kv_put [of "\<lambda>x. key_tag x = found" ?K, OF t]])
      with nf 2 show ?thesis
        by (simp add: Stats_def db_Iterate_def in_range_def)
    qed
  qed
  have later: "map_of (kv d) (pack found [ref]) = None \<and> ref \<in> set deps \<longrightarrow>
          Put (pack missing [ref, x]) [] \<in> set (place_batch d' x location ct deps)"
  proof
    assume a: "map_of (kv d) (pack found [ref]) = None \<and> ref \<in> set deps"
    with fnd have "map_of (kv d') (pack found [ref]) = None" by simp
    then have "\<not> fst (db_Has d' (pack found [ref]))" by (rule db_Has_absent)
    with a show "Put (pack missing [ref, x]) [] \<in> set (place_batch d' x location ct deps)"
      by (simp add: place_batch_def place_deps_missing)
  qed
  have w: "(err = None \<longrightarrow> kv d' = kv_put ?K [] (kv d)) \<and> (err \<noteq> None \<longrightarrow> d' = d)"
    using assms by (cases rule: PlaceMIME_cases) simp_all
  from w other fnd lst ks blobs later show ?thesis by blast
qed

theorem PlaceMIME_frame_witness:
  "PlaceMIME empty_db ''r9'' ''image/jpeg''
     = (empty_db\<lparr>kv := [(''mime|image/jpeg|r9'', [])]\<rparr>, None)
   \<and> map_of (kv (empty_db\<lparr>kv := [(''mime|image/jpeg|r9'', [])]\<rparr>)) ''found|r9'' = None
   \<and> map_option Blobs (Stats (empty_db\<lparr>kv := [(''mime|image/jpeg|r9'', [])]\<rparr>)) = Some 0
   \<and> Put ''missing|r9|r1'' []
       \<in> set (place_batch (empty_db\<lparr>kv := [(''mime|image/jpeg|r9'', [])]\<rparr>) ''r1'' ''/a'' [] [''r9''])"
proof -
  let ?d' = "empty_db\<lparr>kv := [(''mime|image/jpeg|r9'', [])]\<rparr>"
  have call: "PlaceMIME empty_db ''r9'' ''image/jpeg'' = (?d', None)"
    by (simp add: run_defs)
  have nf: "iter_fault empty_db None = None" by (simp add: empty_db_def)
  have absent: "map_of (kv empty_db) (pack found [''r9'']) = None \<and> ''r9'' \<in> set [''r9'']"
    by (simp add: empty_db_def)
  have s0: "map_option Blobs (Stats empty_db) = Some 0"
    by (simp add: Stats_def db_Iterate_def empty_db_def stats_zero_def)
  have e: "pack found [''r9''] = ''found|r9''" "pack missing [''r9'', ''r1''] = ''missing|r9|r1''"
    by (simp_all add: pack.simps consts_defs)
  note t = PlaceMIME_frame [OF call, of "[''r9'']" "''r1''" "''/a''" "[]"]
  from t absent have "map_of (kv ?d') (pack found [''r9'']) = None" by metis
  moreover from t nf s0 have "map_option Blobs (Stats ?d') = Some 0" by metis
  moreover from t absent have "Put (pack missing [''r9'', ''r1'']) []
       \<in> set (place_batch ?d' ''r1'' ''/a'' [] [''r9''])" by metis
  ultimately show ?thesis using call unfolding e by blast
qed

end
